theory Spec2Isabelle
  imports Complex_Main "HOL-Library.AList"
begin



section \<open>Priority levels (src/utils/constants.js)\<close>

text \<open>
  Priorities are JavaScript numbers; every named level is an integer below \<open>2^53\<close>, so the
  divisions and products below are exact in double precision and the levels are modelled as
  \<open>int\<close>. \<open>Math.round\<close> rounds halves upwards, which is what \<open>round\<close> does on the reals.
\<close>

definition PRIORITY_HIGHEST :: int where
  "PRIORITY_HIGHEST = 9007199254740991"

definition PRIORITY_LOWEST :: int where
  "PRIORITY_LOWEST = 1"

definition PRIORITY_LOW :: int where
  "PRIORITY_LOW = round (real_of_int PRIORITY_HIGHEST / 4)"

definition PRIORITY_AVERAGE :: int where
  "PRIORITY_AVERAGE = round (real_of_int (2 * PRIORITY_LOW))"

definition PRIORITY_HIGH :: int where
  "PRIORITY_HIGH = round (real_of_int (3 * PRIORITY_LOW))"

section \<open>Selecting an extremum (utils/functions.js)\<close>

text \<open>
  The loop of \<open>extremumBy\<close> carries the pair \<open>selected\<close>/\<open>extremum\<close>; both are
  \<open>undefined\<close> (here \<open>None\<close>) until the first value has been seen, and they are always
  assigned together.
\<close>

fun extremumBy_loop ::
  "'a list \<Rightarrow> ('a \<Rightarrow> 'b) \<Rightarrow> ('b \<Rightarrow> 'b \<Rightarrow> bool) \<Rightarrow> ('a \<times> 'b) option \<Rightarrow> ('a \<times> 'b) option" where
  "extremumBy_loop [] getter comparator acc = acc"
| "extremumBy_loop (v # vs) getter comparator acc =
     (let calculated = getter v in
      case acc of
        None \<Rightarrow> extremumBy_loop vs getter comparator (Some (v, calculated))
      | Some (selected, extremum) \<Rightarrow>
          if comparator calculated extremum
          then extremumBy_loop vs getter comparator (Some (v, calculated))
          else extremumBy_loop vs getter comparator acc)"

definition extremumBy :: "'a list \<Rightarrow> ('a \<Rightarrow> 'b) \<Rightarrow> ('b \<Rightarrow> 'b \<Rightarrow> bool) \<Rightarrow> 'a option" where
  "extremumBy values getter comparator =
     map_option fst (extremumBy_loop values getter comparator None)"

definition gt :: "int \<Rightarrow> int \<Rightarrow> bool" where
  "gt x y = (x > y)"

definition maxBy :: "'a list \<Rightarrow> ('a \<Rightarrow> int) \<Rightarrow> 'a option" where
  "maxBy values getter = extremumBy values getter gt"

section \<open>The mutex registry (src/extension/ui.js)\<close>

text \<open>
  A holder is the object built by \<open>requestMutex\<close>. Its \<open>onAcquired\<close> closure captures the
  mutex code, the holder id and the id of the timeout timer (\<open>null\<close> when none was armed);
  these captured variables are the fields \<open>mutexCode\<close> and \<open>cancelTimeoutId\<close>. The
  caller's \<open>onSupersessionRequest\<close> callback is identified with the holder it belongs to.
\<close>

record holder =
  uniqueId :: nat
  priority :: int
  mutexCode :: string
  cancelTimeoutId :: "nat option"

record mutex =
  currentHolder :: "holder option"
  pendingHolders :: "holder list"

text \<open>
  The value stored under a mutex code is either a reference to a mutex object or
  \<open>undefined\<close>. Mutex objects live in a heap, because \<open>requestMutex\<close> and \<open>releaseMutex\<close>
  mutate the stored object in place while the timeout callback stores a fresh copy, and the
  supersession timer reads the object it captured when it fires.
\<close>

datatype slot = Undefined | Ref nat

datatype jsval = JUndefined | JNull | JBool bool | JNum int | JStr string
  | JArr "jsval list" | JObj "(string \<times> jsval) list" | JError string

text \<open>
  A promise is pending, fulfilled with the release closure
  \<open>() => releaseMutex(mutexCode, uniqueId)\<close>, or rejected with a reason.
\<close>

datatype promise = Pending | Fulfilled string nat | Rejected jsval

text \<open>
  A timer task is one of the three callbacks passed to \<open>setTimeout\<close>: the timeout callback
  of a request (closure over the mutex code and the holder id), the call of a holder's
  \<open>onAcquired\<close>, and \<open>() => mutex.currentHolder.onSupersessionRequest()\<close>, a closure over
  the mutex object. The invocations of \<open>onAcquired\<close> and \<open>onSupersessionRequest\<close> are
  recorded, with the id of the holder whose callback is invoked.
\<close>

datatype task =
    TimeoutTask string nat
  | AcquiredTask holder
  | SupersessionTask nat

datatype notification = OnAcquired nat | OnSupersessionRequest nat

text \<open>
  The world: the heap of mutex objects, the shared variable \<open>mutexes\<close> (mutex codes are
  taken to be ordinary property names), the shared counter \<open>last_mutex_holder_id\<close> (unset
  counts as 0), the pending timers of the host in the order they were set, the promises
  returned by \<open>requestMutex\<close> (by holder id) and the recorded callback invocations.
\<close>

record world =
  heap :: "nat \<Rightarrow> mutex"
  next_ref :: nat
  mutexes :: "string \<rightharpoonup> slot"
  last_mutex_holder_id :: nat
  timers :: "(nat \<times> task) list"
  last_timer_id :: nat
  promises :: "nat \<rightharpoonup> promise"
  notifications :: "notification list"

definition init :: world where
  "init = \<lparr> heap = (\<lambda>_. \<lparr>currentHolder = None, pendingHolders = []\<rparr>), next_ref = 0,
            mutexes = Map.empty, last_mutex_holder_id = 0, timers = [], last_timer_id = 0,
            promises = Map.empty, notifications = [] \<rparr>"

text \<open>\<open>setTimeout\<close> appends a timer and returns its (positive) id; \<open>clearTimeout\<close> drops it.\<close>

definition setTimeout :: "task \<Rightarrow> world \<Rightarrow> nat \<times> world" where
  "setTimeout t s =
     (let tid = last_timer_id s + 1
      in (tid, s\<lparr>timers := timers s @ [(tid, t)], last_timer_id := tid\<rparr>))"

definition clearTimeout :: "nat \<Rightarrow> world \<Rightarrow> world" where
  "clearTimeout tid s = s\<lparr>timers := filter (\<lambda>e. fst e \<noteq> tid) (timers s)\<rparr>"

definition newObject :: "mutex \<Rightarrow> world \<Rightarrow> nat \<times> world" where
  "newObject m s =
     (let a = next_ref s in (a, s\<lparr>heap := (heap s)(a := m), next_ref := a + 1\<rparr>))"

text \<open>\<open>resolve\<close> and \<open>reject\<close> settle a promise once; later calls are ignored.\<close>

definition resolve :: "nat \<Rightarrow> string \<Rightarrow> world \<Rightarrow> world" where
  "resolve uid code s =
     (if promises s uid = Some Pending
      then s\<lparr>promises := (promises s)(uid \<mapsto> Fulfilled code uid)\<rparr> else s)"

definition reject :: "nat \<Rightarrow> jsval \<Rightarrow> world \<Rightarrow> world" where
  "reject uid reason s =
     (if promises s uid = Some Pending
      then s\<lparr>promises := (promises s)(uid \<mapsto> Rejected reason)\<rparr> else s)"

definition getNextHolderId :: "world \<Rightarrow> nat \<times> world" where
  "getNextHolderId s =
     (let n = last_mutex_holder_id s + 1 in (n, s\<lparr>last_mutex_holder_id := n\<rparr>))"

definition isMutexLocked :: "world \<Rightarrow> string \<Rightarrow> bool" where
  "isMutexLocked s code =
     (case mutexes s code of
        Some (Ref a) \<Rightarrow> currentHolder (heap s a) \<noteq> None
      | _ \<Rightarrow> False)"

text \<open>
  \<open>updateMutex\<close>: the entry is initialised to a fresh free mutex unless it is an object;
  then it is overwritten with whatever the callback returns, \<open>undefined\<close> included.
\<close>

definition updateMutex :: "string \<Rightarrow> (nat \<Rightarrow> world \<Rightarrow> slot \<times> world) \<Rightarrow> world \<Rightarrow> world" where
  "updateMutex code updateCallback s =
     (let (a, s1) =
            (case mutexes s code of
               Some (Ref a) \<Rightarrow> (a, s)
             | _ \<Rightarrow>
                 (let (a, s') = newObject \<lparr>currentHolder = None, pendingHolders = []\<rparr> s
                  in (a, s'\<lparr>mutexes := (mutexes s')(code \<mapsto> Ref a)\<rparr>)));
          (r, s2) = updateCallback a s1
      in s2\<lparr>mutexes := (mutexes s2)(code \<mapsto> r)\<rparr>)"

definition releaseMutex :: "string \<Rightarrow> nat \<Rightarrow> world \<Rightarrow> world" where
  "releaseMutex code holderId =
     updateMutex code (\<lambda>a s.
       let m = heap s a in
       if map_option uniqueId (currentHolder m) \<noteq> Some holderId then (Undefined, s)
       else
         (case maxBy (pendingHolders m) priority of
            Some nextHolder \<Rightarrow>
              (let (tid, s1) = setTimeout (AcquiredTask nextHolder) s
               in (Ref a, s1\<lparr>heap := (heap s1)(a :=
                     \<lparr>currentHolder = Some nextHolder,
                      pendingHolders =
                        filter (\<lambda>h. uniqueId h \<noteq> uniqueId nextHolder) (pendingHolders m)\<rparr>)\<rparr>))
          | None \<Rightarrow> (Ref a, s\<lparr>heap := (heap s)(a := m\<lparr>currentHolder := None\<rparr>)\<rparr>)))"

record config =
  cfg_priority :: "int option"
  cfg_timeoutDelay :: "int option"

definition requestMutex :: "string \<Rightarrow> config \<Rightarrow> world \<Rightarrow> world" where
  "requestMutex code cfg s0 =
     (let prio = (case cfg_priority cfg of None \<Rightarrow> PRIORITY_AVERAGE | Some p \<Rightarrow> p);
          (uid, s1) = getNextHolderId s0;
          s2 = s1\<lparr>promises := (promises s1)(uid \<mapsto> Pending)\<rparr>;
          (cancelId, s3) =
            (case cfg_timeoutDelay cfg of
               Some d \<Rightarrow>
                 if d > 0 then (let (tid, s') = setTimeout (TimeoutTask code uid) s2 in (Some tid, s'))
                 else (None, s2)
             | None \<Rightarrow> (None, s2));
          h = \<lparr>uniqueId = uid, priority = prio, mutexCode = code, cancelTimeoutId = cancelId\<rparr>
      in updateMutex code (\<lambda>a s.
           let m = heap s a in
           case currentHolder m of
             None \<Rightarrow>
               (let s' = s\<lparr>heap := (heap s)(a := m\<lparr>currentHolder := Some h\<rparr>)\<rparr>
                in (Ref a, snd (setTimeout (AcquiredTask h) s')))
           | Some cur \<Rightarrow>
               (let s' = s\<lparr>heap := (heap s)(a := m\<lparr>pendingHolders := pendingHolders m @ [h]\<rparr>)\<rparr>
                in (Ref a, if priority h > priority cur
                           then snd (setTimeout (SupersessionTask a) s') else s'))) s3)"

text \<open>The bodies of the three kinds of timer callbacks.\<close>

definition onAcquired :: "holder \<Rightarrow> world \<Rightarrow> world" where
  "onAcquired h s =
     (let s1 = (case cancelTimeoutId h of Some tid \<Rightarrow> clearTimeout tid s | None \<Rightarrow> s);
          s2 = s1\<lparr>notifications := notifications s1 @ [OnAcquired (uniqueId h)]\<rparr>
      in resolve (uniqueId h) (mutexCode h) s2)"

definition onTimeout :: "string \<Rightarrow> nat \<Rightarrow> world \<Rightarrow> world" where
  "onTimeout code uid s =
     reject uid JUndefined
       (updateMutex code (\<lambda>a s.
          let m = heap s a;
              (a', s') = newObject (m\<lparr>pendingHolders :=
                            filter (\<lambda>h. uid \<noteq> uniqueId h) (pendingHolders m)\<rparr>) s
          in (Ref a', s')) s)"

definition onSupersession :: "nat \<Rightarrow> world \<Rightarrow> world" where
  "onSupersession a s =
     (case currentHolder (heap s a) of
        None \<Rightarrow> s
      | Some cur \<Rightarrow> s\<lparr>notifications := notifications s @ [OnSupersessionRequest (uniqueId cur)]\<rparr>)"

fun runTask :: "task \<Rightarrow> world \<Rightarrow> world" where
  "runTask (TimeoutTask code uid) s = onTimeout code uid s"
| "runTask (AcquiredTask h) s = onAcquired h s"
| "runTask (SupersessionTask a) s = onSupersession a s"

text \<open>
  A timer fires at most once: it leaves the timer list and its callback runs. Which pending
  timer fires next is left open; firing a timer that is not pending does nothing.
\<close>

definition fire :: "nat \<Rightarrow> world \<Rightarrow> world" where
  "fire tid s =
     (case map_of (timers s) tid of
        None \<Rightarrow> s
      | Some t \<Rightarrow> runTask t (clearTimeout tid s))"

text \<open>
  The release function is only ever handed out through a fulfilled promise, so a caller can
  invoke it only for a holder whose promise has been fulfilled.
\<close>

definition callRelease :: "nat \<Rightarrow> world \<Rightarrow> world" where
  "callRelease uid s =
     (case promises s uid of
        Some (Fulfilled code u) \<Rightarrow> releaseMutex code u s
      | _ \<Rightarrow> s)"

datatype op = Request string config | CallRelease nat | Fire nat

fun step :: "op \<Rightarrow> world \<Rightarrow> world" where
  "step (Request code cfg) s = requestMutex code cfg s"
| "step (CallRelease uid) s = callRelease uid s"
| "step (Fire tid) s = fire tid s"

definition run :: "op list \<Rightarrow> world \<Rightarrow> world" where
  "run ops s = fold step ops s"

definition mutexAt :: "world \<Rightarrow> string \<Rightarrow> mutex option" where
  "mutexAt s code = (case mutexes s code of Some (Ref a) \<Rightarrow> Some (heap s a) | _ \<Rightarrow> None)"

section \<open>The event registry (src/duo/sounds.js)\<close>

text \<open>
  A listener is a JavaScript function. Two kinds occur: a caller's callback, which maps the
  payload to a result or throws (\<open>None\<close>), and the hidden base listener built by
  \<open>registerDerivedEventListener\<close>, a closure over the derived event type and \<open>mapPayload\<close>
  (which may throw as well). Callbacks are taken not to touch the registry themselves.

  The listeners of an event type are a JavaScript object keyed by listener id. Its own
  properties are enumerated in insertion order, assigning to an existing key keeps its place,
  and a deleted key that is assigned again goes to the end: an association list with
  \<open>AList.update\<close> and \<open>AList.delete\<close>. Event types and listener ids are taken to be ordinary
  property names (not array indices, not names inherited from \<open>Object.prototype\<close>).
\<close>

datatype listener =
    Callback "jsval list \<Rightarrow> jsval option"
  | BaseListener string "jsval list \<Rightarrow> jsval option"

record registry =
  event_listeners :: "string \<Rightarrow> (string \<times> listener) list"
  last_event_listener_id :: nat

definition empty_registry :: registry where
  "empty_registry = \<lparr> event_listeners = (\<lambda>_. []), last_event_listener_id = 0 \<rparr>"

text \<open>Decimal digits of a number, as a template string prints it.\<close>

fun show_nat :: "nat \<Rightarrow> string" where
  "show_nat n =
     (if n < 10 then [char_of (48 + n)]
      else show_nat (n div 10) @ [char_of (48 + n mod 10)])"

declare show_nat.simps [simp del]

definition getUniqueEventListenerId :: "registry \<Rightarrow> string \<times> registry" where
  "getUniqueEventListenerId reg =
     (let n = last_event_listener_id reg + 1
      in (''__listener::'' @ show_nat n @ ''__'', reg\<lparr>last_event_listener_id := n\<rparr>))"

definition getEventListeners :: "registry \<Rightarrow> string \<Rightarrow> (string \<times> listener) list" where
  "getEventListeners reg event = event_listeners reg event"

definition setEventListeners :: "string \<Rightarrow> (string \<times> listener) list \<Rightarrow> registry \<Rightarrow> registry" where
  "setEventListeners event listeners reg =
     reg\<lparr>event_listeners := (event_listeners reg)(event := listeners)\<rparr>"

definition isEmptyObject :: "(string \<times> 'a) list \<Rightarrow> bool" where
  "isEmptyObject object = (case object of [] \<Rightarrow> True | _ \<Rightarrow> False)"


definition hasEventListener :: "registry \<Rightarrow> string \<Rightarrow> string \<Rightarrow> bool" where
  "hasEventListener reg event listenerId =
     (case map_of (getEventListeners reg event) listenerId of None \<Rightarrow> False | Some _ \<Rightarrow> True)"

text \<open>
  \<open>withEventListeners\<close> returns \<open>null\<close> (\<open>None\<close>) when the event type has no listener.
  Otherwise the callback gets the listeners in enumeration order; the model passes each
  listener together with its id, which only serves to name the calls of a dispatch.
\<close>

definition withEventListeners ::
  "registry \<Rightarrow> string \<Rightarrow> ((string \<times> listener) list \<Rightarrow> 'a) \<Rightarrow> 'a option" where
  "withEventListeners reg event callback =
     (let listeners = getEventListeners reg event
      in if isEmptyObject listeners then None else Some (callback listeners))"

text \<open>
  An unregister function is a closure: the plain one captures the event type and the listener
  id, the combined one returned by \<open>registerDerivedEventListener\<close> captures in addition the
  base event type and the id of the hidden base listener.
\<close>

datatype unregister =
    UnregisterListener string string
  | UnregisterDerived string string string string

definition unregisterEventListener :: "string \<Rightarrow> string \<Rightarrow> registry \<Rightarrow> registry" where
  "unregisterEventListener event listenerId reg =
     setEventListeners event (AList.delete listenerId (getEventListeners reg event)) reg"

definition registerEventListener ::
  "string \<Rightarrow> listener \<Rightarrow> string option \<Rightarrow> registry \<Rightarrow> unregister \<times> registry" where
  "registerEventListener event callback listenerId reg0 =
     (let (lid, reg) = (case listenerId of Some i \<Rightarrow> (i, reg0)
                                         | None \<Rightarrow> getUniqueEventListenerId reg0)
      in (UnregisterListener event lid,
          setEventListeners event (AList.update lid callback (getEventListeners reg event)) reg))"

definition baseListenerId :: "string \<Rightarrow> string \<Rightarrow> string" where
  "baseListenerId baseEvent derivedEvent = ''__'' @ baseEvent @ ''::'' @ derivedEvent @ ''__''"

definition registerDerivedEventListener ::
  "string \<Rightarrow> string \<Rightarrow> listener \<Rightarrow> (jsval list \<Rightarrow> jsval option)
     \<Rightarrow> (string \<Rightarrow> listener \<Rightarrow> string \<Rightarrow> registry \<Rightarrow> registry)
     \<Rightarrow> string option \<Rightarrow> registry \<Rightarrow> unregister \<times> registry" where
  "registerDerivedEventListener derivedEvent baseEvent derivedCallback mapPayload
       registerBaseListener derivedListenerId reg0 =
     (let (lid, reg1) = (case derivedListenerId of Some i \<Rightarrow> (i, reg0)
                                                | None \<Rightarrow> getUniqueEventListenerId reg0);
          hid = baseListenerId baseEvent derivedEvent;
          reg2 = (if \<not> hasEventListener reg1 baseEvent hid
                  then registerBaseListener baseEvent (BaseListener derivedEvent mapPayload) hid reg1
                  else reg1);
          reg3 = snd (registerEventListener derivedEvent derivedCallback (Some lid) reg2)
      in (UnregisterDerived derivedEvent lid baseEvent hid, reg3))"

text \<open>The default \<open>registerBaseListener\<close> is \<open>registerEventListener\<close>; its result is dropped.\<close>

definition defaultRegisterBaseListener :: "string \<Rightarrow> listener \<Rightarrow> string \<Rightarrow> registry \<Rightarrow> registry" where
  "defaultRegisterBaseListener event callback listenerId reg =
     snd (registerEventListener event callback (Some listenerId) reg)"


subsection \<open>Dispatching\<close>

text \<open>
  A dispatch is observed through what it returns and through the sequence of calls it makes:
  \<open>Dispatched e p\<close> for a call of \<open>dispatchEvent\<close>, \<open>Invoked e i p\<close> for the call of the
  listener registered under id \<open>i\<close> for event type \<open>e\<close>.

  The hidden base listener calls \<open>dispatchEvent\<close> again, so dispatching recurses through the
  registry; the recursion depth is bounded by a fuel argument and \<open>None\<close> means that the
  fuel ran out. The hidden listener has a block body without \<open>return\<close>: its result is
  \<open>undefined\<close>, unless \<open>mapPayload\<close> throws.
\<close>

datatype occurrence = Dispatched string "jsval list" | Invoked string string "jsval list"

fun callListener ::
  "(string \<Rightarrow> jsval list \<Rightarrow> (jsval list option \<times> occurrence list) option)
     \<Rightarrow> string \<Rightarrow> string \<times> listener \<Rightarrow> jsval list \<Rightarrow> (jsval option \<times> occurrence list) option" where
  "callListener dispatch event (lid, Callback f) payload =
     Some (f payload, [Invoked event lid payload])"
| "callListener dispatch event (lid, BaseListener derivedEvent mapPayload) payload =
     (case mapPayload payload of
        None \<Rightarrow> Some (None, [Invoked event lid payload])
      | Some (JArr derivedPayload) \<Rightarrow>
          (case dispatch derivedEvent derivedPayload of
             None \<Rightarrow> None
           | Some (r, tr) \<Rightarrow> Some (Some JUndefined, Invoked event lid payload # tr))
      | Some _ \<Rightarrow> Some (Some JUndefined, [Invoked event lid payload]))"

text \<open>\<open>listeners.flatMap\<close> with the \<open>try\<close>/\<open>catch\<close> around each call.\<close>

fun flatMapListeners ::
  "(string \<Rightarrow> jsval list \<Rightarrow> (jsval list option \<times> occurrence list) option)
     \<Rightarrow> string \<Rightarrow> (string \<times> listener) list \<Rightarrow> jsval list \<Rightarrow> (jsval list \<times> occurrence list) option" where
  "flatMapListeners dispatch event [] payload = Some ([], [])"
| "flatMapListeners dispatch event (l # ls) payload =
     (case callListener dispatch event l payload of
        None \<Rightarrow> None
      | Some (r, tr) \<Rightarrow>
          (case flatMapListeners dispatch event ls payload of
             None \<Rightarrow> None
           | Some (rs, trs) \<Rightarrow>
               Some ((case r of Some v \<Rightarrow> [v] | None \<Rightarrow> []) @ rs, tr @ trs)))"

primrec dispatchEvent ::
  "nat \<Rightarrow> registry \<Rightarrow> string \<Rightarrow> jsval list \<Rightarrow> (jsval list option \<times> occurrence list) option" where
  "dispatchEvent 0 reg event payload = None"
| "dispatchEvent (Suc n) reg event payload =
     (case withEventListeners reg event
             (\<lambda>listeners. flatMapListeners (dispatchEvent n reg) event listeners payload) of
        None \<Rightarrow> Some (None, [Dispatched event payload])
      | Some None \<Rightarrow> None
      | Some (Some (rs, tr)) \<Rightarrow> Some (Some rs, Dispatched event payload # tr))"

section \<open>Auxiliary notions used in the statements\<close>

text \<open>The holder object that \<open>requestMutex code cfg\<close> builds when called in world \<open>s\<close>.\<close>

definition newHolder :: "string \<Rightarrow> config \<Rightarrow> world \<Rightarrow> holder" where
  "newHolder code cfg s =
     \<lparr>uniqueId = last_mutex_holder_id s + 1,
      priority = (case cfg_priority cfg of None \<Rightarrow> PRIORITY_AVERAGE | Some p \<Rightarrow> p),
      mutexCode = code,
      cancelTimeoutId =
        (case cfg_timeoutDelay cfg of
           Some d \<Rightarrow> if d > 0 then Some (last_timer_id s + 1) else None
         | None \<Rightarrow> None)\<rparr>"

text \<open>Invariants of the worlds reachable from \<open>init\<close>.\<close>

definition wf_refs :: "world \<Rightarrow> bool" where
  "wf_refs s \<longleftrightarrow>
     (\<forall>c a. mutexes s c = Some (Ref a) \<longrightarrow> a < next_ref s) \<and>
     (\<forall>c c' a. mutexes s c = Some (Ref a) \<longrightarrow> mutexes s c' = Some (Ref a) \<longrightarrow> c = c')"

definition wf_mutex :: "nat \<Rightarrow> mutex \<Rightarrow> bool" where
  "wf_mutex lastId m \<longleftrightarrow>
     sorted_wrt (<) (map uniqueId (pendingHolders m)) \<and>
     (\<forall>h\<in>set (pendingHolders m). uniqueId h \<le> lastId) \<and>
     (\<forall>cur. currentHolder m = Some cur \<longrightarrow>
        uniqueId cur \<le> lastId \<and> uniqueId cur \<notin> uniqueId ` set (pendingHolders m))"

fun wf_task :: "nat \<Rightarrow> task \<Rightarrow> bool" where
  "wf_task lastId (TimeoutTask code uid) = (uid \<le> lastId)"
| "wf_task lastId (AcquiredTask h) = (uniqueId h \<le> lastId)"
| "wf_task lastId (SupersessionTask a) = True"

definition wf_world :: "world \<Rightarrow> bool" where
  "wf_world s \<longleftrightarrow>
     wf_refs s \<and>
     (\<forall>c m. mutexAt s c = Some m \<longrightarrow> wf_mutex (last_mutex_holder_id s) m) \<and>
     (\<forall>e\<in>set (timers s). wf_task (last_mutex_holder_id s) (snd e)) \<and>
     (\<forall>u. last_mutex_holder_id s < u \<longrightarrow> promises s u = None)"

definition wf_timer_ids :: "world \<Rightarrow> bool" where
  "wf_timer_ids s \<longleftrightarrow> (\<forall>e\<in>set (timers s). fst e \<le> last_timer_id s)"

text \<open>No timeout timer is pending for request \<open>u\<close>, and its promise exists and is not rejected.\<close>

definition untimed :: "nat \<Rightarrow> world \<Rightarrow> bool" where
  "untimed u s \<longleftrightarrow>
     promises s u \<noteq> None \<and> (\<forall>r. promises s u \<noteq> Some (Rejected r)) \<and>
     (\<forall>e\<in>set (timers s). \<forall>c. snd e \<noteq> TimeoutTask c u)"

text \<open>Request \<open>u\<close> has been issued and is neither waiting for nor holding the mutex \<open>code\<close>.\<close>

definition gone :: "nat \<Rightarrow> string \<Rightarrow> world \<Rightarrow> bool" where
  "gone u code s \<longleftrightarrow>
     u \<le> last_mutex_holder_id s \<and>
     (\<forall>m. mutexAt s code = Some m \<longrightarrow>
        u \<notin> uniqueId ` set (pendingHolders m) \<and>
        map_option uniqueId (currentHolder m) \<noteq> Some u)"

text \<open>
  What a listener contributes to the results of a dispatch: the value it returns, or nothing
  when it throws. This is the list the specification calls the results of the successful
  listeners.
\<close>

fun listenerResult :: "listener \<Rightarrow> jsval list \<Rightarrow> jsval option" where
  "listenerResult (Callback f) payload = f payload"
| "listenerResult (BaseListener derivedEvent mapPayload) payload =
     (case mapPayload payload of None \<Rightarrow> None | Some _ \<Rightarrow> Some JUndefined)"

definition successfulResults :: "(string \<times> listener) list \<Rightarrow> jsval list \<Rightarrow> jsval list" where
  "successfulResults listeners payload =
     List.map_filter (\<lambda>e. listenerResult (snd e) payload) listeners"

text \<open>The payloads with which an event type was dispatched in a sequence of calls.\<close>

fun dispatchesOf :: "string \<Rightarrow> occurrence list \<Rightarrow> jsval list list" where
  "dispatchesOf event [] = []"
| "dispatchesOf event (Dispatched e p # tr) =
     (if e = event then p # dispatchesOf event tr else dispatchesOf event tr)"
| "dispatchesOf event (Invoked e i p # tr) = dispatchesOf event tr"











text \<open>
  The derivation graph is acyclic when event types can be ranked so that every hidden base
  listener dispatches an event type of lower rank than the one it listens to.
\<close>

definition derivation_rank :: "(string \<Rightarrow> nat) \<Rightarrow> registry \<Rightarrow> bool" where
  "derivation_rank rank reg \<longleftrightarrow>
     (\<forall>e i d mp. (i, BaseListener d mp) \<in> set (getEventListeners reg e) \<longrightarrow> rank d < rank e)"

text \<open>
  The calls below a dispatch of \<open>event\<close> with \<open>payload\<close>: listeners of \<open>event\<close> are called
  with \<open>payload\<close>, and every other call concerns an event type of lower rank.
\<close>

definition bounded_trace :: "(string \<Rightarrow> nat) \<Rightarrow> string \<Rightarrow> jsval list \<Rightarrow> occurrence list \<Rightarrow> bool" where
  "bounded_trace rank event payload tr \<longleftrightarrow>
     (\<forall>e q. Dispatched e q \<in> set tr \<longrightarrow> rank e < rank event) \<and>
     (\<forall>e i q. Invoked e i q \<in> set tr \<longrightarrow> (e = event \<and> q = payload) \<or> rank e < rank event)"

text \<open>
  The holders that a run has handed their release function (their promise is fulfilled) and
  that have not called it.
\<close>

fun releasedBy :: "nat \<Rightarrow> op \<Rightarrow> bool" where
  "releasedBy u (CallRelease v) = (v = u)"
| "releasedBy u _ = False"

definition unreleasedHolders :: "op list \<Rightarrow> nat list" where
  "unreleasedHolders ops =
     (let s = run ops init
      in filter (\<lambda>u. (case promises s u of Some (Fulfilled c v) \<Rightarrow> True | _ \<Rightarrow> False) \<and>
                      \<not> list_ex (releasedBy u) ops)
           [1..<Suc (last_mutex_holder_id s)])"

section \<open>Example data\<close>

definition plain :: "int \<Rightarrow> config" where
  "plain p = \<lparr>cfg_priority = Some p, cfg_timeoutDelay = None\<rparr>"

definition timed :: "int \<Rightarrow> int \<Rightarrow> config" where
  "timed p d = \<lparr>cfg_priority = Some p, cfg_timeoutDelay = Some d\<rparr>"

definition mkHolder :: "nat \<Rightarrow> int \<Rightarrow> holder" where
  "mkHolder i p = \<lparr>uniqueId = i, priority = p, mutexCode = ''X'', cancelTimeoutId = None\<rparr>"

definition queue_example :: "op list" where
  "queue_example = [Request ''X'' (plain 1), Request ''X'' (plain 5), Request ''X'' (plain 7),
                    Request ''X'' (plain 7), Request ''X'' (plain 3)]"

definition double_release_example :: "op list" where
  "double_release_example =
     [Request ''X'' (plain 1), Fire 1, Request ''X'' (plain 1), CallRelease 1, Fire 2,
      CallRelease 1, Request ''X'' (plain 1), Fire 3]"

definition stale_release_example :: "op list" where
  "stale_release_example =
     [Request ''X'' (plain 1), Fire 1, Request ''X'' (plain 5), Request ''X'' (plain 3),
      CallRelease 1]"

definition timedHolder :: "nat \<Rightarrow> int \<Rightarrow> nat \<Rightarrow> holder" where
  "timedHolder i p t = \<lparr>uniqueId = i, priority = p, mutexCode = ''X'', cancelTimeoutId = Some t\<rparr>"

definition waiting_example :: "op list" where
  "waiting_example = [Request ''X'' (plain 1), Fire 1, Request ''X'' (timed 5 50)]"

definition late_timeout_example :: "op list" where
  "late_timeout_example =
     [Request ''X'' (plain 1), Fire 1, Request ''X'' (timed 5 50), Fire 3, CallRelease 1, Fire 2, Fire 4]"

definition supersession_example :: "op list" where
  "supersession_example =
     [Request ''X'' (plain 1), Fire 1, Request ''X'' (plain 5), CallRelease 1, Fire 2, Fire 3]"

definition outranked_example :: "op list" where
  "outranked_example =
     [Request ''X'' (plain 1), Fire 1, Request ''X'' (plain 10), Fire 2,
      Request ''X'' (plain 5), CallRelease 1, Fire 3]"

text \<open>
  The listener and the payload mapper of the specification's scenario
  (\<open>payload => Array.isArray(payload) ? payload : undefined\<close>).
\<close>

definition example_listener :: listener where
  "example_listener = Callback (\<lambda>p. Some (JNum 1))"

definition example_mapPayload :: "jsval list \<Rightarrow> jsval option" where
  "example_mapPayload p = (case p of JArr xs # _ \<Rightarrow> Some (JArr xs) | _ \<Rightarrow> Some JUndefined)"








definition three_listeners :: registry where
  "three_listeners =
     snd (registerEventListener ''e'' (Callback (\<lambda>p. Some (JBool False))) (Some ''c'')
       (snd (registerEventListener ''e'' (Callback (\<lambda>p. None)) (Some ''b'')
         (snd (registerEventListener ''e'' (Callback (\<lambda>p. Some (JNum 1))) (Some ''a'')
            empty_registry)))))"

definition derived_example :: registry where
  "derived_example =
     snd (registerDerivedEventListener ''parsed'' ''raw'' example_listener example_mapPayload
            defaultRegisterBaseListener None empty_registry)"

definition example_rank :: "string \<Rightarrow> nat" where
  "example_rank e = (if e = ''raw'' then 1 else 0)"


section \<open>Facts about the mutex registry\<close>

subsection \<open>The selected extremum\<close>

lemma extremumBy_loop_gt:
  fixes f :: "'a \<Rightarrow> int"
  assumes cmp: "\<And>a b. cmp a b = (b < a)"
  shows "extremumBy_loop xs f cmp (Some (s, f s)) = Some (r, e) \<Longrightarrow>
     e = f r \<and>
     ((r = s \<and> (\<forall>x\<in>set xs. f x \<le> f s)) \<or>
      (\<exists>pre post. xs = pre @ r # post \<and> f s < f r \<and>
         (\<forall>p\<in>set pre. f p < f r) \<and> (\<forall>p\<in>set post. f p \<le> f r)))"
proof (induction xs arbitrary: s)
  case Nil
  then show ?case by auto
next
  case (Cons x xs)
  show ?case
  proof (cases "f x > f s")
    case True
    then have "cmp (f x) (f s)" using cmp by blast
    with Cons.prems have run: "extremumBy_loop xs f cmp (Some (x, f x)) = Some (r, e)"
      by simp
    from Cons.IH[OF run] have e: "e = f r" and
      alt: "(r = x \<and> (\<forall>y\<in>set xs. f y \<le> f x)) \<or>
        (\<exists>pre post. xs = pre @ r # post \<and> f x < f r \<and>
           (\<forall>p\<in>set pre. f p < f r) \<and> (\<forall>p\<in>set post. f p \<le> f r))"
      by blast+
    from alt show ?thesis
    proof
      assume a: "r = x \<and> (\<forall>y\<in>set xs. f y \<le> f x)"
      then have "x # xs = [] @ r # xs \<and> f s < f r \<and> (\<forall>p\<in>set []. f p < f r) \<and>
          (\<forall>p\<in>set xs. f p \<le> f r)"
        using True by simp
      then show ?thesis using e by blast
    next
      assume "\<exists>pre post. xs = pre @ r # post \<and> f x < f r \<and>
           (\<forall>p\<in>set pre. f p < f r) \<and> (\<forall>p\<in>set post. f p \<le> f r)"
      then obtain pre post where d: "xs = pre @ r # post" "f x < f r"
        "\<forall>p\<in>set pre. f p < f r" "\<forall>p\<in>set post. f p \<le> f r" by blast
      then have "x # xs = (x # pre) @ r # post \<and> f s < f r \<and>
         (\<forall>p\<in>set (x # pre). f p < f r) \<and> (\<forall>p\<in>set post. f p \<le> f r)"
        using True by auto
      then show ?thesis using e by blast
    qed
  next
    case False
    then have "\<not> cmp (f x) (f s)" using cmp by blast
    with Cons.prems have run: "extremumBy_loop xs f cmp (Some (s, f s)) = Some (r, e)"
      by simp
    from Cons.IH[OF run] have e: "e = f r" and
      alt: "(r = s \<and> (\<forall>y\<in>set xs. f y \<le> f s)) \<or>
        (\<exists>pre post. xs = pre @ r # post \<and> f s < f r \<and>
           (\<forall>p\<in>set pre. f p < f r) \<and> (\<forall>p\<in>set post. f p \<le> f r))"
      by blast+
    from alt show ?thesis
    proof
      assume "r = s \<and> (\<forall>y\<in>set xs. f y \<le> f s)"
      then show ?thesis using False e by auto
    next
      assume "\<exists>pre post. xs = pre @ r # post \<and> f s < f r \<and>
           (\<forall>p\<in>set pre. f p < f r) \<and> (\<forall>p\<in>set post. f p \<le> f r)"
      then obtain pre post where d: "xs = pre @ r # post" "f s < f r"
        "\<forall>p\<in>set pre. f p < f r" "\<forall>p\<in>set post. f p \<le> f r" by blast
      then have "x # xs = (x # pre) @ r # post \<and> f s < f r \<and>
         (\<forall>p\<in>set (x # pre). f p < f r) \<and> (\<forall>p\<in>set post. f p \<le> f r)"
        using False by auto
      then show ?thesis using e by blast
    qed
  qed
qed

lemma maxBy_Nil: "maxBy [] f = None"
  by (simp add: maxBy_def extremumBy_def)

lemma maxBy_None: "maxBy xs f = None \<longleftrightarrow> xs = []"
proof -
  have "extremumBy_loop ys f gt (Some a) \<noteq> None" for ys a
    by (induction ys arbitrary: a) (auto simp: Let_def split: prod.splits)
  then show ?thesis
    by (cases xs) (auto simp: maxBy_def extremumBy_def Let_def)
qed

lemma maxBy_first_max:
  assumes "maxBy xs f = Some n"
  shows "\<exists>pre post. xs = pre @ n # post \<and>
           (\<forall>p\<in>set pre. f p < f n) \<and> (\<forall>p\<in>set post. f p \<le> f n)"
proof (cases xs)
  case Nil
  with assms show ?thesis by (simp add: maxBy_Nil)
next
  case (Cons x ys)
  with assms obtain e where run: "extremumBy_loop ys f gt (Some (x, f x)) = Some (n, e)"
    by (auto simp: maxBy_def extremumBy_def Let_def)
  from extremumBy_loop_gt[OF gt_def run] show ?thesis
  proof (elim conjE disjE exE)
    assume "n = x" "\<forall>y\<in>set ys. f y \<le> f x"
    then have "xs = [] @ n # ys \<and> (\<forall>p\<in>set []. f p < f n) \<and> (\<forall>p\<in>set ys. f p \<le> f n)"
      using Cons by simp
    then show ?thesis by blast
  next
    fix pre post
    assume "ys = pre @ n # post" "f x < f n" "\<forall>p\<in>set pre. f p < f n"
      "\<forall>p\<in>set post. f p \<le> f n"
    then have "xs = (x # pre) @ n # post \<and> (\<forall>p\<in>set (x # pre). f p < f n) \<and>
        (\<forall>p\<in>set post. f p \<le> f n)"
      using Cons by simp
    then show ?thesis by blast
  qed
qed


lemma wf_refsD1: "wf_refs s \<Longrightarrow> mutexes s c = Some (Ref a) \<Longrightarrow> a < next_ref s"
  by (auto simp: wf_refs_def)

lemma wf_refsD2:
  "wf_refs s \<Longrightarrow> mutexes s c = Some (Ref a) \<Longrightarrow> mutexes s c' = Some (Ref a) \<Longrightarrow> c = c'"
  unfolding wf_refs_def by blast

lemma wf_refsI:
  assumes "\<And>c a. mutexes s c = Some (Ref a) \<Longrightarrow> a < next_ref s"
    and "\<And>c c' a. mutexes s c = Some (Ref a) \<Longrightarrow> mutexes s c' = Some (Ref a) \<Longrightarrow> c = c'"
  shows "wf_refs s"
  using assms unfolding wf_refs_def by blast

lemmas mutex_defs = updateMutex_def getNextHolderId_def setTimeout_def
  newObject_def mutexAt_def Let_def

subsection \<open>requestMutex\<close>

lemma requestMutex_held:
  assumes "mutexAt s code = Some m" "currentHolder m = Some cur"
  shows "mutexAt (requestMutex code cfg s) code =
           Some (m\<lparr>pendingHolders := pendingHolders m @ [newHolder code cfg s]\<rparr>)"
  using assms
  by (auto simp: requestMutex_def mutex_defs newHolder_def split: option.splits slot.splits)

lemma requestMutex_free:
  assumes "mutexAt s code = Some m" "currentHolder m = None"
  shows "mutexAt (requestMutex code cfg s) code =
           Some (m\<lparr>currentHolder := Some (newHolder code cfg s)\<rparr>)"
  using assms
  by (auto simp: requestMutex_def mutex_defs newHolder_def split: option.splits slot.splits)

lemma requestMutex_fresh:
  assumes "mutexAt s code = None"
  shows "mutexAt (requestMutex code cfg s) code =
           Some \<lparr>currentHolder = Some (newHolder code cfg s), pendingHolders = []\<rparr>"
  using assms
  by (auto simp: requestMutex_def mutex_defs newHolder_def split: option.splits slot.splits)

lemma requestMutex_other:
  assumes "wf_refs s" "c \<noteq> code"
  shows "mutexAt (requestMutex code cfg s) c = mutexAt s c"
  using assms
  by (auto simp: requestMutex_def mutex_defs dest: wf_refsD1 wf_refsD2 split: option.splits slot.splits)

lemma requestMutex_refs:
  assumes "wf_refs s"
  shows "wf_refs (requestMutex code cfg s)"
  using assms
  by (intro wf_refsI) (auto simp: requestMutex_def mutex_defs less_Suc_eq dest: wf_refsD1 wf_refsD2 split: option.splits slot.splits if_splits)

lemma requestMutex_last_id [simp]:
  "last_mutex_holder_id (requestMutex code cfg s) = last_mutex_holder_id s + 1"
  by (auto simp: requestMutex_def mutex_defs split: option.splits slot.splits)

lemma requestMutex_promises [simp]:
  "promises (requestMutex code cfg s) = (promises s)(last_mutex_holder_id s + 1 \<mapsto> Pending)"
  by (auto simp: requestMutex_def mutex_defs split: option.splits slot.splits)

lemma requestMutex_notifications [simp]:
  "notifications (requestMutex code cfg s) = notifications s"
  by (auto simp: requestMutex_def mutex_defs split: option.splits slot.splits)


lemma requestMutex_timers:
  assumes "e \<in> set (timers (requestMutex code cfg s))"
  shows "e \<in> set (timers s) \<or>
         (snd e = TimeoutTask code (last_mutex_holder_id s + 1) \<and>
            (\<exists>d. cfg_timeoutDelay cfg = Some d \<and> d > 0)) \<or>
         snd e = AcquiredTask (newHolder code cfg s) \<or>
         (\<exists>a. snd e = SupersessionTask a)"
  using assms
  by (auto simp: requestMutex_def mutex_defs newHolder_def split: option.splits slot.splits if_splits)

lemma requestMutex_timers_mono:
  "set (timers s) \<subseteq> set (timers (requestMutex code cfg s))"
  by (auto simp: requestMutex_def mutex_defs split: option.splits slot.splits if_splits)

subsection \<open>releaseMutex\<close>

lemma releaseMutex_empty:
  assumes "mutexAt s code = Some m" "currentHolder m = Some cur" "uniqueId cur = uid"
    "pendingHolders m = []"
  shows "mutexAt (releaseMutex code uid s) code = Some (m\<lparr>currentHolder := None\<rparr>)"
    and "timers (releaseMutex code uid s) = timers s"
  using assms
  by (auto simp: releaseMutex_def mutex_defs maxBy_Nil split: option.splits slot.splits)

lemma releaseMutex_promote:
  assumes "mutexAt s code = Some m" "currentHolder m = Some cur" "uniqueId cur = uid"
    "maxBy (pendingHolders m) priority = Some n"
  shows "mutexAt (releaseMutex code uid s) code =
           Some \<lparr>currentHolder = Some n,
                 pendingHolders = filter (\<lambda>h. uniqueId h \<noteq> uniqueId n) (pendingHolders m)\<rparr>"
    and "timers (releaseMutex code uid s) = timers s @ [(last_timer_id s + 1, AcquiredTask n)]"
  using assms
  by (auto simp: releaseMutex_def mutex_defs split: option.splits slot.splits)

lemma releaseMutex_stale:
  assumes "\<forall>m. mutexAt s code = Some m \<longrightarrow> map_option uniqueId (currentHolder m) \<noteq> Some uid"
  shows "mutexes (releaseMutex code uid s) code = Some Undefined"
    and "mutexAt (releaseMutex code uid s) code = None"
    and "timers (releaseMutex code uid s) = timers s"
  using assms
  by (auto simp: releaseMutex_def mutex_defs split: option.splits slot.splits)

lemma releaseMutex_other:
  assumes "wf_refs s" "c \<noteq> code"
  shows "mutexAt (releaseMutex code uid s) c = mutexAt s c"
  using assms
  by (auto simp: releaseMutex_def mutex_defs dest: wf_refsD1 wf_refsD2 split: option.splits slot.splits)

lemma releaseMutex_refs:
  assumes "wf_refs s"
  shows "wf_refs (releaseMutex code uid s)"
  using assms
  by (intro wf_refsI) (auto simp: releaseMutex_def mutex_defs less_Suc_eq dest: wf_refsD1 wf_refsD2 split: option.splits slot.splits if_splits)

lemma releaseMutex_last_id [simp]:
  "last_mutex_holder_id (releaseMutex code uid s) = last_mutex_holder_id s"
  by (auto simp: releaseMutex_def mutex_defs split: option.splits slot.splits)

lemma releaseMutex_promises [simp]:
  "promises (releaseMutex code uid s) = promises s"
  by (auto simp: releaseMutex_def mutex_defs split: option.splits slot.splits)

lemma releaseMutex_notifications [simp]:
  "notifications (releaseMutex code uid s) = notifications s"
  by (auto simp: releaseMutex_def mutex_defs split: option.splits slot.splits)

subsection \<open>The timer callbacks\<close>

lemma onTimeout_at:
  "mutexAt (onTimeout code uid s) code =
     Some (case mutexAt s code of
             Some m \<Rightarrow> m\<lparr>pendingHolders := filter (\<lambda>h. uid \<noteq> uniqueId h) (pendingHolders m)\<rparr>
           | None \<Rightarrow> \<lparr>currentHolder = None, pendingHolders = []\<rparr>)"
  by (auto simp: onTimeout_def reject_def mutex_defs split: option.splits slot.splits)

lemma onTimeout_other:
  assumes "wf_refs s" "c \<noteq> code"
  shows "mutexAt (onTimeout code uid s) c = mutexAt s c"
  using assms
  by (auto simp: onTimeout_def reject_def mutex_defs dest: wf_refsD1 wf_refsD2 split: option.splits slot.splits)

lemma onTimeout_refs:
  assumes "wf_refs s"
  shows "wf_refs (onTimeout code uid s)"
  using assms
  by (intro wf_refsI) (auto simp: onTimeout_def reject_def mutex_defs less_Suc_eq dest: wf_refsD1 wf_refsD2 split: option.splits slot.splits if_splits)

lemma onTimeout_last_id [simp]:
  "last_mutex_holder_id (onTimeout code uid s) = last_mutex_holder_id s"
  by (auto simp: onTimeout_def reject_def mutex_defs split: option.splits slot.splits)

lemma onTimeout_timers [simp]:
  "timers (onTimeout code uid s) = timers s"
  by (auto simp: onTimeout_def reject_def mutex_defs split: option.splits slot.splits)

lemma onTimeout_notifications [simp]:
  "notifications (onTimeout code uid s) = notifications s"
  by (auto simp: onTimeout_def reject_def mutex_defs split: option.splits slot.splits)

lemma onTimeout_promises [simp]:
  "promises (onTimeout code uid s) =
     (if promises s uid = Some Pending then (promises s)(uid \<mapsto> Rejected JUndefined) else promises s)"
  by (auto simp: onTimeout_def reject_def mutex_defs split: option.splits slot.splits)

lemma onAcquired_at [simp]: "mutexAt (onAcquired h s) c = mutexAt s c"
  by (auto simp: onAcquired_def resolve_def clearTimeout_def mutex_defs split: option.splits slot.splits)

lemma onAcquired_refs [simp]: "wf_refs (onAcquired h s) = wf_refs s"
  by (auto simp: onAcquired_def resolve_def clearTimeout_def wf_refs_def Let_def split: option.splits)

lemma onAcquired_last_id [simp]:
  "last_mutex_holder_id (onAcquired h s) = last_mutex_holder_id s"
  by (auto simp: onAcquired_def resolve_def clearTimeout_def Let_def split: option.splits)

lemma onAcquired_timers:
  "timers (onAcquired h s) =
     (case cancelTimeoutId h of Some tid \<Rightarrow> filter (\<lambda>e. fst e \<noteq> tid) (timers s) | None \<Rightarrow> timers s)"
  by (auto simp: onAcquired_def resolve_def clearTimeout_def Let_def split: option.splits)

lemma onAcquired_promises [simp]:
  "promises (onAcquired h s) =
     (if promises s (uniqueId h) = Some Pending
      then (promises s)(uniqueId h \<mapsto> Fulfilled (mutexCode h) (uniqueId h)) else promises s)"
  by (auto simp: onAcquired_def resolve_def clearTimeout_def Let_def split: option.splits)

lemma onAcquired_notifications [simp]:
  "notifications (onAcquired h s) = notifications s @ [OnAcquired (uniqueId h)]"
  by (auto simp: onAcquired_def resolve_def clearTimeout_def Let_def split: option.splits)

lemma onSupersession_at [simp]: "mutexAt (onSupersession a s) c = mutexAt s c"
  by (auto simp: onSupersession_def mutexAt_def split: option.splits slot.splits)

lemma onSupersession_refs [simp]: "wf_refs (onSupersession a s) = wf_refs s"
  by (auto simp: onSupersession_def wf_refs_def split: option.splits)

lemma onSupersession_fields [simp]:
  "last_mutex_holder_id (onSupersession a s) = last_mutex_holder_id s"
  "timers (onSupersession a s) = timers s"
  "promises (onSupersession a s) = promises s"
  by (auto simp: onSupersession_def split: option.splits)

lemma clearTimeout_at [simp]: "mutexAt (clearTimeout tid s) c = mutexAt s c"
  by (auto simp: clearTimeout_def mutexAt_def split: option.splits slot.splits)

lemma clearTimeout_refs [simp]: "wf_refs (clearTimeout tid s) = wf_refs s"
  by (auto simp: clearTimeout_def wf_refs_def)

lemma clearTimeout_fields [simp]:
  "last_mutex_holder_id (clearTimeout tid s) = last_mutex_holder_id s"
  "timers (clearTimeout tid s) = filter (\<lambda>e. fst e \<noteq> tid) (timers s)"
  "promises (clearTimeout tid s) = promises s"
  "notifications (clearTimeout tid s) = notifications s"
  by (auto simp: clearTimeout_def)


subsection \<open>Preservation of the invariants\<close>

lemma wf_mutex_mono: "wf_mutex k m \<Longrightarrow> k \<le> k' \<Longrightarrow> wf_mutex k' m"
  by (fastforce simp: wf_mutex_def)

lemma wf_task_mono: "wf_task k t \<Longrightarrow> k \<le> k' \<Longrightarrow> wf_task k' t"
  by (cases t) auto

lemma wf_mutex_empty: "wf_mutex k \<lparr>currentHolder = None, pendingHolders = []\<rparr>"
  by (simp add: wf_mutex_def)

lemma wf_mutex_push:
  assumes "wf_mutex k m" "currentHolder m = Some cur" "uniqueId h = Suc k"
  shows "wf_mutex (Suc k) (m\<lparr>pendingHolders := pendingHolders m @ [h]\<rparr>)"
  using assms by (fastforce simp: wf_mutex_def sorted_wrt_append)

lemma wf_mutex_take:
  assumes "wf_mutex k m" "currentHolder m = None" "uniqueId h = Suc k"
  shows "wf_mutex (Suc k) (m\<lparr>currentHolder := Some h\<rparr>)"
  using assms by (fastforce simp: wf_mutex_def)

lemma wf_mutex_free: "wf_mutex k m \<Longrightarrow> wf_mutex k (m\<lparr>currentHolder := None\<rparr>)"
  by (simp add: wf_mutex_def)

lemma wf_mutex_filter:
  "wf_mutex k m \<Longrightarrow> wf_mutex k (m\<lparr>pendingHolders := filter P (pendingHolders m)\<rparr>)"
  by (auto simp: wf_mutex_def sorted_wrt_map sorted_wrt_filter)

lemma wf_mutex_promote:
  assumes "wf_mutex k m" "n \<in> set (pendingHolders m)"
  shows "wf_mutex k \<lparr>currentHolder = Some n,
           pendingHolders = filter (\<lambda>h. uniqueId h \<noteq> uniqueId n) (pendingHolders m)\<rparr>"
  using assms by (auto simp: wf_mutex_def sorted_wrt_map sorted_wrt_filter)

lemma maxBy_mem: "maxBy xs f = Some n \<Longrightarrow> n \<in> set xs"
  using maxBy_first_max[of xs f n] by auto

lemma wfD_mutex: "wf_world s \<Longrightarrow> mutexAt s c = Some m \<Longrightarrow> wf_mutex (last_mutex_holder_id s) m"
  by (simp add: wf_world_def)

lemma wfD_refs: "wf_world s \<Longrightarrow> wf_refs s"
  by (simp add: wf_world_def)

lemma wfD_task: "wf_world s \<Longrightarrow> e \<in> set (timers s) \<Longrightarrow> wf_task (last_mutex_holder_id s) (snd e)"
  by (simp add: wf_world_def)

lemma wfD_promise: "wf_world s \<Longrightarrow> last_mutex_holder_id s < u \<Longrightarrow> promises s u = None"
  by (simp add: wf_world_def)

lemma wf_init: "wf_world init"
  by (simp add: wf_world_def wf_refs_def init_def mutexAt_def)

lemma wf_requestMutex:
  assumes "wf_world s"
  shows "wf_world (requestMutex code cfg s)"
  unfolding wf_world_def
proof (intro conjI allI impI ballI)
  show "wf_refs (requestMutex code cfg s)"
    using assms by (simp add: requestMutex_refs wfD_refs)
next
  fix c m
  assume at: "mutexAt (requestMutex code cfg s) c = Some m"
  have id: "uniqueId (newHolder code cfg s) = last_mutex_holder_id s + 1"
    by (simp add: newHolder_def)
  show "wf_mutex (last_mutex_holder_id (requestMutex code cfg s)) m"
  proof (cases "c = code")
    case False
    with at assms have "mutexAt s c = Some m"
      by (simp add: requestMutex_other wfD_refs)
    then show ?thesis
      using assms by (auto intro: wf_mutex_mono dest: wfD_mutex)
  next
    case True
    show ?thesis
    proof (cases "mutexAt s code")
      case None
      with at True show ?thesis
        by (auto simp: requestMutex_fresh wf_mutex_def id)
    next
      case (Some m0)
      then have w: "wf_mutex (last_mutex_holder_id s) m0"
        using assms by (rule wfD_mutex[rotated])
      show ?thesis
      proof (cases "currentHolder m0")
        case None
        with Some at True w id show ?thesis
          by (auto simp: requestMutex_free intro: wf_mutex_take)
      next
        case (Some cur)
        with \<open>mutexAt s code = Some m0\<close> at True w id show ?thesis
          by (auto simp: requestMutex_held intro: wf_mutex_push)
      qed
    qed
  qed
next
  fix e
  assume "e \<in> set (timers (requestMutex code cfg s))"
  from requestMutex_timers[OF this]
  show "wf_task (last_mutex_holder_id (requestMutex code cfg s)) (snd e)"
    using assms by (auto simp: newHolder_def dest!: wfD_task intro: wf_task_mono)
next
  fix u
  assume "last_mutex_holder_id (requestMutex code cfg s) < u"
  then show "promises (requestMutex code cfg s) u = None"
    using assms wfD_promise[of s u] by auto
qed

lemma wf_releaseMutex:
  assumes "wf_world s"
  shows "wf_world (releaseMutex code uid s)"
  unfolding wf_world_def
proof (intro conjI allI impI ballI)
  show "wf_refs (releaseMutex code uid s)"
    using assms by (simp add: releaseMutex_refs wfD_refs)
next
  fix c m
  assume at: "mutexAt (releaseMutex code uid s) c = Some m"
  show "wf_mutex (last_mutex_holder_id (releaseMutex code uid s)) m"
  proof (cases "c = code")
    case False
    with at assms have "mutexAt s c = Some m"
      by (simp add: releaseMutex_other wfD_refs)
    then show ?thesis using assms by (auto dest: wfD_mutex)
  next
    case True
    show ?thesis
    proof (cases "\<exists>m0 cur. mutexAt s code = Some m0 \<and> currentHolder m0 = Some cur \<and> uniqueId cur = uid")
      case False
      then have "mutexAt (releaseMutex code uid s) code = None"
        by (intro releaseMutex_stale) auto
      with at True show ?thesis by simp
    next
      case True': True
      then obtain m0 cur where m0: "mutexAt s code = Some m0" "currentHolder m0 = Some cur"
        "uniqueId cur = uid" by blast
      then have w: "wf_mutex (last_mutex_holder_id s) m0"
        using assms by (auto dest: wfD_mutex)
      show ?thesis
      proof (cases "maxBy (pendingHolders m0) priority")
        case None
        then have "pendingHolders m0 = []" by (simp add: maxBy_None)
        with m0 at True w show ?thesis
          by (auto simp: releaseMutex_empty intro: wf_mutex_free)
      next
        case (Some n)
        with m0 at True w show ?thesis
          by (auto simp: releaseMutex_promote intro: wf_mutex_promote dest: maxBy_mem)
      qed
    qed
  qed
next
  fix e
  assume e: "e \<in> set (timers (releaseMutex code uid s))"
  show "wf_task (last_mutex_holder_id (releaseMutex code uid s)) (snd e)"
  proof (cases "\<exists>m0 cur n. mutexAt s code = Some m0 \<and> currentHolder m0 = Some cur \<and> uniqueId cur = uid
                  \<and> maxBy (pendingHolders m0) priority = Some n")
    case True
    then obtain m0 cur n where m0: "mutexAt s code = Some m0" "currentHolder m0 = Some cur"
        "uniqueId cur = uid" "maxBy (pendingHolders m0) priority = Some n" by blast
    then have "wf_mutex (last_mutex_holder_id s) m0" "n \<in> set (pendingHolders m0)"
      using assms by (auto dest: wfD_mutex maxBy_mem)
    then have "uniqueId n \<le> last_mutex_holder_id s" by (auto simp: wf_mutex_def)
    with e m0 assms show ?thesis
      by (auto simp: releaseMutex_promote dest!: wfD_task)
  next
    case False
    have "timers (releaseMutex code uid s) = timers s"
    proof (cases "\<exists>m0 cur. mutexAt s code = Some m0 \<and> currentHolder m0 = Some cur \<and> uniqueId cur = uid")
      case True
      then obtain m0 cur where m0: "mutexAt s code = Some m0" "currentHolder m0 = Some cur"
        "uniqueId cur = uid" by blast
      with False have "maxBy (pendingHolders m0) priority = None" by auto
      then have "pendingHolders m0 = []" by (simp add: maxBy_None)
      with m0 show ?thesis by (simp add: releaseMutex_empty)
    next
      case False
      then show ?thesis by (intro releaseMutex_stale) auto
    qed
    with e assms show ?thesis by (auto dest!: wfD_task)
  qed
next
  fix u
  assume "last_mutex_holder_id (releaseMutex code uid s) < u"
  then show "promises (releaseMutex code uid s) u = None"
    using assms wfD_promise[of s u] by auto
qed


lemma wf_clearTimeout:
  assumes "wf_world s"
  shows "wf_world (clearTimeout tid s)"
  using assms by (auto simp: wf_world_def)

lemma wf_onTimeout:
  assumes "wf_world s"
  shows "wf_world (onTimeout code uid s)"
  unfolding wf_world_def
proof (intro conjI allI impI ballI)
  show "wf_refs (onTimeout code uid s)"
    using assms by (simp add: onTimeout_refs wfD_refs)
next
  fix c m
  assume at: "mutexAt (onTimeout code uid s) c = Some m"
  show "wf_mutex (last_mutex_holder_id (onTimeout code uid s)) m"
  proof (cases "c = code")
    case False
    with at assms have "mutexAt s c = Some m"
      by (simp add: onTimeout_other wfD_refs)
    then show ?thesis using assms by (auto dest: wfD_mutex)
  next
    case True
    with at assms show ?thesis
      by (auto simp: onTimeout_at wf_mutex_empty split: option.splits
               intro: wf_mutex_filter dest: wfD_mutex)
  qed
next
  fix e
  assume "e \<in> set (timers (onTimeout code uid s))"
  then show "wf_task (last_mutex_holder_id (onTimeout code uid s)) (snd e)"
    using assms by (auto dest!: wfD_task)
next
  fix u
  assume "last_mutex_holder_id (onTimeout code uid s) < u"
  then show "promises (onTimeout code uid s) u = None"
    using assms wfD_promise[of s u] wfD_promise[of s uid] by (auto split: if_splits)
qed

lemma wf_onAcquired:
  assumes "wf_world s"
  shows "wf_world (onAcquired h s)"
  unfolding wf_world_def
proof (intro conjI allI impI ballI)
  show "wf_refs (onAcquired h s)" using assms by (simp add: wfD_refs)
next
  fix c m
  assume "mutexAt (onAcquired h s) c = Some m"
  then show "wf_mutex (last_mutex_holder_id (onAcquired h s)) m"
    using assms by (auto dest: wfD_mutex)
next
  fix e
  assume "e \<in> set (timers (onAcquired h s))"
  then show "wf_task (last_mutex_holder_id (onAcquired h s)) (snd e)"
    using assms by (auto simp: onAcquired_timers split: option.splits dest!: wfD_task)
next
  fix u
  assume "last_mutex_holder_id (onAcquired h s) < u"
  then show "promises (onAcquired h s) u = None"
    using assms wfD_promise[of s u] wfD_promise[of s "uniqueId h"] by (auto split: if_splits)
qed

lemma wf_onSupersession:
  assumes "wf_world s"
  shows "wf_world (onSupersession a s)"
  using assms by (auto simp: wf_world_def)

lemma wf_fire:
  assumes "wf_world s"
  shows "wf_world (fire tid s)"
proof (cases "map_of (timers s) tid")
  case None
  with assms show ?thesis by (simp add: fire_def)
next
  case (Some t)
  have "wf_world (runTask t (clearTimeout tid s))"
    using wf_clearTimeout[OF assms, of tid]
    by (cases t) (auto intro: wf_onTimeout wf_onAcquired wf_onSupersession)
  with Some show ?thesis by (simp add: fire_def)
qed

lemma wf_callRelease:
  assumes "wf_world s"
  shows "wf_world (callRelease uid s)"
  using assms by (auto simp: callRelease_def wf_releaseMutex split: option.splits promise.splits)

lemma wf_step: "wf_world s \<Longrightarrow> wf_world (step x s)"
  by (cases x) (auto intro: wf_requestMutex wf_callRelease wf_fire)

lemma wf_fold: "wf_world s \<Longrightarrow> wf_world (fold step ops s)"
  by (induction ops arbitrary: s) (auto intro: wf_step)

lemma wf_run: "wf_world (run ops init)"
  by (simp add: run_def wf_fold wf_init)

lemma run_append: "run (xs @ ys) s = run ys (run xs s)"
  by (simp add: run_def)


lemma filter_distinct_ids:
  assumes "distinct (map uniqueId (pre @ n # post))"
  shows "filter (\<lambda>h. uniqueId h \<noteq> uniqueId n) (pre @ n # post) = pre @ post"
proof -
  have "\<forall>h\<in>set pre. uniqueId h \<noteq> uniqueId n" "\<forall>h\<in>set post. uniqueId h \<noteq> uniqueId n"
    using assms by (auto simp: image_iff)
  then show ?thesis by (simp add: filter_id_conv)
qed

lemma wf_mutex_distinct: "wf_mutex k m \<Longrightarrow> distinct (map uniqueId (pendingHolders m))"
  unfolding wf_mutex_def using strict_sorted_iff[of "map uniqueId (pendingHolders m)"] by blast

section \<open>Claims about the mutex\<close>

text \<open>
  C1. Mutual exclusion fails on a sequence in which a release function is called twice.
  Holder 1 acquires the mutex, holder 2 queues up, holder 1 releases, and holder 2 is
  promoted and receives its release function: holder 2 is the only holder that has a release
  function it has not called, and it is the current holder. Holder 1 then calls its release
  function a second time: the update callback of \<open>releaseMutex\<close> returns \<open>undefined\<close>, which
  \<open>updateMutex\<close> stores, and the mutex reads as unlocked although holder 2 has released
  nothing. The next request is made while holder 2 still holds the mutex, yet it is not
  appended to \<open>pendingHolders\<close>: holder 3 becomes the current holder at once, and once its
  \<open>onAcquired\<close> task has run, holders 2 and 3 both have a release function that they have
  not called.
\<close>

theorem repeated_release_breaks_exclusion:
  "unreleasedHolders (take 3 double_release_example) = [1] \<and>
   mutexAt (run (take 3 double_release_example) init) ''X'' =
     Some \<lparr>currentHolder = Some (mkHolder 1 1), pendingHolders = [mkHolder 2 1]\<rparr> \<and>
   unreleasedHolders (take 5 double_release_example) = [2] \<and>
   mutexAt (run (take 5 double_release_example) init) ''X'' =
     Some \<lparr>currentHolder = Some (mkHolder 2 1), pendingHolders = []\<rparr> \<and>
   take 6 double_release_example = take 5 double_release_example @ [CallRelease 1] \<and>
   unreleasedHolders (take 6 double_release_example) = [2] \<and>
   mutexes (run (take 6 double_release_example) init) ''X'' = Some Undefined \<and>
   mutexAt (run (take 6 double_release_example) init) ''X'' = None \<and>
   \<not> isMutexLocked (run (take 6 double_release_example) init) ''X'' \<and>
   take 7 double_release_example = take 6 double_release_example @ [Request ''X'' (plain 1)] \<and>
   unreleasedHolders (take 7 double_release_example) = [2] \<and>
   mutexAt (run (take 7 double_release_example) init) ''X'' =
     Some \<lparr>currentHolder = Some (mkHolder 3 1), pendingHolders = []\<rparr> \<and>
   promises (run double_release_example init) 2 = Some (Fulfilled ''X'' 2) \<and>
   promises (run double_release_example init) 3 = Some (Fulfilled ''X'' 3) \<and>
   unreleasedHolders double_release_example = [2, 3]"
  by code_simp

text \<open>
  The other half holds. After any sequence of requests, release calls and timer firings, a
  mutex that is an object has a single \<open>currentHolder\<close> slot; while it is occupied, the
  occupant is not among the pending holders, whose ids are strictly increasing (queue order
  is request order), and a further \<open>requestMutex\<close> leaves the current holder in place and
  only appends the requester to \<open>pendingHolders\<close>. A release by the current holder frees the
  mutex when nobody waits, and otherwise promotes the first pending holder of maximal
  priority: every holder queued before it has a strictly lower priority, every holder queued
  after it has at most its priority, and exactly that holder leaves the queue.
\<close>

lemma release_promotes_first_maximum:
  assumes held: "mutexAt (run ops init) code = Some m" "currentHolder m = Some cur"
  shows "sorted_wrt (<) (map uniqueId (pendingHolders m)) \<and>
         uniqueId cur \<notin> uniqueId ` set (pendingHolders m) \<and>
         mutexAt (requestMutex code cfg (run ops init)) code =
           Some (m\<lparr>pendingHolders := pendingHolders m @ [newHolder code cfg (run ops init)]\<rparr>) \<and>
         (pendingHolders m = [] \<longrightarrow>
            mutexAt (releaseMutex code (uniqueId cur) (run ops init)) code =
              Some (m\<lparr>currentHolder := None\<rparr>)) \<and>
         (pendingHolders m \<noteq> [] \<longrightarrow>
            (\<exists>pre n post.
               pendingHolders m = pre @ n # post \<and>
               (\<forall>p\<in>set pre. priority p < priority n) \<and>
               (\<forall>p\<in>set post. priority p \<le> priority n) \<and>
               mutexAt (releaseMutex code (uniqueId cur) (run ops init)) code =
                 Some \<lparr>currentHolder = Some n, pendingHolders = pre @ post\<rparr>))"
proof -
  let ?s = "run ops init"
  have w: "wf_mutex (last_mutex_holder_id ?s) m"
    using wf_run held(1) by (rule wfD_mutex)
  have sorted: "sorted_wrt (<) (map uniqueId (pendingHolders m))"
    and notin: "uniqueId cur \<notin> uniqueId ` set (pendingHolders m)"
    using w held(2) by (auto simp: wf_mutex_def)
  have req: "mutexAt (requestMutex code cfg ?s) code =
           Some (m\<lparr>pendingHolders := pendingHolders m @ [newHolder code cfg ?s]\<rparr>)"
    using held by (rule requestMutex_held)
  have free: "mutexAt (releaseMutex code (uniqueId cur) ?s) code = Some (m\<lparr>currentHolder := None\<rparr>)"
    if "pendingHolders m = []"
    using held that by (simp add: releaseMutex_empty)
  have promote: "\<exists>pre n post.
               pendingHolders m = pre @ n # post \<and>
               (\<forall>p\<in>set pre. priority p < priority n) \<and>
               (\<forall>p\<in>set post. priority p \<le> priority n) \<and>
               mutexAt (releaseMutex code (uniqueId cur) ?s) code =
                 Some \<lparr>currentHolder = Some n, pendingHolders = pre @ post\<rparr>"
    if ne: "pendingHolders m \<noteq> []"
  proof -
    from ne obtain n where n: "maxBy (pendingHolders m) priority = Some n"
      using maxBy_None[of "pendingHolders m" priority] by (cases "maxBy (pendingHolders m) priority") auto
    from maxBy_first_max[OF n] obtain pre post where
      d: "pendingHolders m = pre @ n # post" "\<forall>p\<in>set pre. priority p < priority n"
         "\<forall>p\<in>set post. priority p \<le> priority n" by blast
    have "distinct (map uniqueId (pre @ n # post))"
      using wf_mutex_distinct[OF w] d(1) by simp
    then have "filter (\<lambda>h. uniqueId h \<noteq> uniqueId n) (pendingHolders m) = pre @ post"
      unfolding d(1) by (rule filter_distinct_ids)
    then have "mutexAt (releaseMutex code (uniqueId cur) ?s) code =
                 Some \<lparr>currentHolder = Some n, pendingHolders = pre @ post\<rparr>"
      using releaseMutex_promote(1)[OF held refl n] by simp
    with d show ?thesis by blast
  qed
  from sorted notin req free promote show ?thesis by blast
qed


text \<open>
  An instance: holder 1 holds the mutex, holders 2 to 5 wait with priorities 5, 7, 7, 3. The
  release promotes holder 3, the earlier of the two holders of priority 7.
\<close>

lemma release_promotes_first_maximum_example:
  "mutexAt (run queue_example init) ''X'' =
     Some \<lparr>currentHolder = Some (mkHolder 1 1),
           pendingHolders = [mkHolder 2 5, mkHolder 3 7, mkHolder 4 7, mkHolder 5 3]\<rparr> \<and>
   mutexAt (releaseMutex ''X'' 1 (run queue_example init)) ''X'' =
     Some \<lparr>currentHolder = Some (mkHolder 3 7),
           pendingHolders = [mkHolder 2 5, mkHolder 4 7, mkHolder 5 3]\<rparr> \<and>
   mutexAt (requestMutex ''X'' (plain 9) (run queue_example init)) ''X'' =
     Some \<lparr>currentHolder = Some (mkHolder 1 1),
           pendingHolders = [mkHolder 2 5, mkHolder 3 7, mkHolder 4 7, mkHolder 5 3, mkHolder 6 9]\<rparr>"
proof -
  let ?m = "\<lparr>currentHolder = Some (mkHolder 1 1),
           pendingHolders = [mkHolder 2 5, mkHolder 3 7, mkHolder 4 7, mkHolder 5 3]\<rparr>"
  have h1: "mutexAt (run queue_example init) ''X'' = Some ?m"
    by code_simp
  have h2: "currentHolder ?m = Some (mkHolder 1 1)"
    by simp
  have r: "mutexAt (releaseMutex ''X'' 1 (run queue_example init)) ''X'' =
     Some \<lparr>currentHolder = Some (mkHolder 3 7),
           pendingHolders = [mkHolder 2 5, mkHolder 4 7, mkHolder 5 3]\<rparr>"
    by code_simp
  have n: "newHolder ''X'' (plain 9) (run queue_example init) = mkHolder 6 9"
    by code_simp
  show ?thesis
    using h1 r n release_promotes_first_maximum[OF h1 h2, of "plain 9"] by simp
qed

text \<open>
  C2. Calling the release function a second time is not a no-op. Holder 1 acquires the mutex,
  holders 2 and 3 queue up, holder 1 releases and holder 2 is promoted. When holder 1 calls
  its release function again, the update callback of \<open>releaseMutex\<close> returns \<open>undefined\<close>
  and \<open>updateMutex\<close> stores that: the entry of the mutex is wiped, holder 2 is forgotten as
  current holder, holder 3 is no longer pending, the mutex reads as unlocked, and the next
  request acquires it at once.
\<close>

theorem stale_release_discards_mutex:
  "promises (run stale_release_example init) 1 = Some (Fulfilled ''X'' 1) \<and>
   mutexAt (run stale_release_example init) ''X'' =
     Some \<lparr>currentHolder = Some (mkHolder 2 5), pendingHolders = [mkHolder 3 3]\<rparr> \<and>
   mutexes (callRelease 1 (run stale_release_example init)) ''X'' = Some Undefined \<and>
   mutexAt (callRelease 1 (run stale_release_example init)) ''X'' = None \<and>
   \<not> isMutexLocked (callRelease 1 (run stale_release_example init)) ''X'' \<and>
   mutexAt (requestMutex ''X'' (plain 2) (callRelease 1 (run stale_release_example init))) ''X'' =
     Some \<lparr>currentHolder = Some (mkHolder 4 2), pendingHolders = []\<rparr>"
  by code_simp

text \<open>
  C9, as stated, fails: a priority below \<open>PRIORITY_LOWEST\<close> or above \<open>PRIORITY_HIGHEST\<close> is
  stored in the holder as it was given.
\<close>

theorem priority_not_clamped:
  "mutexAt (requestMutex ''X'' (plain 0) init) ''X'' =
     Some \<lparr>currentHolder = Some (mkHolder 1 0), pendingHolders = []\<rparr> \<and>
   priority (mkHolder 1 0) < PRIORITY_LOWEST \<and>
   mutexAt (requestMutex ''X'' (plain (PRIORITY_HIGHEST + 1)) init) ''X'' =
     Some \<lparr>currentHolder = Some (mkHolder 1 (PRIORITY_HIGHEST + 1)), pendingHolders = []\<rparr> \<and>
   PRIORITY_HIGHEST < priority (mkHolder 1 (PRIORITY_HIGHEST + 1))"
  by code_simp

lemma PRIORITY_LOW_eq: "PRIORITY_LOW = 2251799813685248"
  unfolding PRIORITY_LOW_def PRIORITY_HIGHEST_def round_def by simp

lemma PRIORITY_AVERAGE_eq: "PRIORITY_AVERAGE = 4503599627370496"
  unfolding PRIORITY_AVERAGE_def PRIORITY_LOW_eq by simp

lemma PRIORITY_HIGH_eq: "PRIORITY_HIGH = 6755399441055744"
  unfolding PRIORITY_HIGH_def PRIORITY_LOW_eq by simp

text \<open>
  C9, amended. \<open>requestMutex\<close> never rejects and never clamps a priority: the holder it
  creates (as current holder or in the queue) carries the priority that was passed, or
  \<open>PRIORITY_AVERAGE\<close> when none was. The range ends are 1 and \<open>2^53 - 1\<close>, and
  \<open>PRIORITY_LOW\<close>, \<open>PRIORITY_AVERAGE\<close>, \<open>PRIORITY_HIGH\<close> are one, two and three times the
  rounded quarter of \<open>PRIORITY_HIGHEST\<close>.
\<close>

theorem priority_stored_as_given:
  "(\<exists>m' h. mutexAt (requestMutex code cfg s) code = Some m' \<and>
       (currentHolder m' = Some h \<or> h \<in> set (pendingHolders m')) \<and>
       uniqueId h = last_mutex_holder_id s + 1 \<and>
       priority h = (case cfg_priority cfg of None \<Rightarrow> PRIORITY_AVERAGE | Some p \<Rightarrow> p)) \<and>
   PRIORITY_LOWEST = 1 \<and> PRIORITY_HIGHEST = 2 ^ 53 - 1 \<and>
   4 * PRIORITY_LOW = PRIORITY_HIGHEST + 1 \<and>
   PRIORITY_AVERAGE = 2 * PRIORITY_LOW \<and> PRIORITY_HIGH = 3 * PRIORITY_LOW"
proof -
  let ?h = "newHolder code cfg s"
  have "\<exists>m'. mutexAt (requestMutex code cfg s) code = Some m' \<and>
       (currentHolder m' = Some ?h \<or> ?h \<in> set (pendingHolders m'))"
  proof (cases "mutexAt s code")
    case None
    then show ?thesis by (simp add: requestMutex_fresh)
  next
    case (Some m)
    then show ?thesis
      by (cases "currentHolder m") (simp_all add: requestMutex_free requestMutex_held)
  qed
  moreover have "uniqueId ?h = last_mutex_holder_id s + 1"
    "priority ?h = (case cfg_priority cfg of None \<Rightarrow> PRIORITY_AVERAGE | Some p \<Rightarrow> p)"
    by (simp_all add: newHolder_def)
  moreover have "PRIORITY_LOWEST = 1 \<and> PRIORITY_HIGHEST = 2 ^ 53 - 1 \<and>
     4 * PRIORITY_LOW = PRIORITY_HIGHEST + 1 \<and>
     PRIORITY_AVERAGE = 2 * PRIORITY_LOW \<and> PRIORITY_HIGH = 3 * PRIORITY_LOW"
    by (simp add: PRIORITY_LOW_eq PRIORITY_AVERAGE_eq PRIORITY_HIGH_eq PRIORITY_LOWEST_def
        PRIORITY_HIGHEST_def)
  ultimately show ?thesis by blast
qed


subsection \<open>Timers\<close>

lemma releaseMutex_timers:
  assumes "e \<in> set (timers (releaseMutex code uid s))"
  shows "e \<in> set (timers s) \<or> (\<exists>n. e = (last_timer_id s + 1, AcquiredTask n))"
  using assms
  by (auto simp: releaseMutex_def mutex_defs split: option.splits slot.splits if_splits)

lemma wf_timer_ids_releaseMutex:
  assumes "wf_timer_ids s"
  shows "wf_timer_ids (releaseMutex code uid s)"
  using assms unfolding wf_timer_ids_def
  by (auto simp: releaseMutex_def mutex_defs split: option.splits slot.splits if_splits)

lemma wf_timer_ids_requestMutex:
  assumes "wf_timer_ids s"
  shows "wf_timer_ids (requestMutex code cfg s)"
  using assms unfolding wf_timer_ids_def
  by (auto simp: requestMutex_def mutex_defs split: option.splits slot.splits if_splits)

lemma wf_timer_ids_fire:
  assumes "wf_timer_ids s"
  shows "wf_timer_ids (fire tid s)"
proof (cases "map_of (timers s) tid")
  case None
  with assms show ?thesis by (simp add: fire_def)
next
  case (Some t)
  have "wf_timer_ids (runTask t (clearTimeout tid s))"
    using assms unfolding wf_timer_ids_def
    by (cases t)
       (auto simp: onTimeout_def reject_def onAcquired_def resolve_def clearTimeout_def
          onSupersession_def mutex_defs split: option.splits slot.splits if_splits)
  with Some show ?thesis by (simp add: fire_def)
qed

lemma wf_timer_ids_step: "wf_timer_ids s \<Longrightarrow> wf_timer_ids (step x s)"
  by (cases x)
     (auto simp: callRelease_def intro: wf_timer_ids_requestMutex wf_timer_ids_releaseMutex
        wf_timer_ids_fire split: option.splits promise.splits)

lemma wf_timer_ids_run: "wf_timer_ids (run ops init)"
proof -
  have "wf_timer_ids s \<Longrightarrow> wf_timer_ids (fold step xs s)" for xs s
    by (induction xs arbitrary: s) (auto intro: wf_timer_ids_step)
  moreover have "wf_timer_ids init" by (simp add: wf_timer_ids_def init_def)
  ultimately show ?thesis by (simp add: run_def)
qed

lemma requestMutex_arms_timer:
  assumes "wf_timer_ids s" "cfg_timeoutDelay cfg = Some d" "0 < d"
  shows "map_of (timers (requestMutex code cfg s)) (last_timer_id s + 1) =
           Some (TimeoutTask code (last_mutex_holder_id s + 1))"
proof -
  have "map_of (timers s) (last_timer_id s + 1) = None"
    using assms(1) by (fastforce simp: wf_timer_ids_def map_of_eq_None_iff)
  then show ?thesis
    using assms(2,3)
    by (auto simp: requestMutex_def mutex_defs map_add_def split: option.splits slot.splits)
qed

subsection \<open>Requests without a timeout\<close>

lemma untimed_requestMutex:
  assumes "wf_world s" "untimed u s"
  shows "untimed u (requestMutex code cfg s)"
proof -
  from assms have le: "u \<le> last_mutex_holder_id s"
    using wfD_promise[of s u] by (auto simp: untimed_def not_less[symmetric])
  show ?thesis
    unfolding untimed_def
  proof (intro conjI ballI allI)
    show "promises (requestMutex code cfg s) u \<noteq> None"
      using assms(2) by (simp add: untimed_def)
    show "promises (requestMutex code cfg s) u \<noteq> Some (Rejected r)" for r
      using assms(2) by (simp add: untimed_def)
    show "snd e \<noteq> TimeoutTask c u" if "e \<in> set (timers (requestMutex code cfg s))" for e c
      using requestMutex_timers[OF that] assms(2) le by (auto simp: untimed_def)
  qed
qed

lemma untimed_releaseMutex:
  assumes "untimed u s"
  shows "untimed u (releaseMutex code uid s)"
  using assms unfolding untimed_def
  by (auto dest!: releaseMutex_timers)

lemma untimed_fire:
  assumes "untimed u s"
  shows "untimed u (fire tid s)"
proof (cases "map_of (timers s) tid")
  case None
  with assms show ?thesis by (simp add: fire_def)
next
  case (Some t)
  then have mem: "(tid, t) \<in> set (timers s)" by (rule map_of_SomeD)
  have c: "untimed u (clearTimeout tid s)"
    using assms by (auto simp: untimed_def)
  have "untimed u (runTask t (clearTimeout tid s))"
  proof (cases t)
    case (TimeoutTask code uid)
    with mem assms have "uid \<noteq> u" by (fastforce simp: untimed_def)
    with c TimeoutTask show ?thesis by (auto simp: untimed_def)
  next
    case (AcquiredTask h)
    with c show ?thesis
      by (auto simp: untimed_def onAcquired_timers split: option.splits)
  next
    case (SupersessionTask a)
    with c show ?thesis by (auto simp: untimed_def)
  qed
  with Some show ?thesis by (simp add: fire_def)
qed

lemma untimed_step: "wf_world s \<Longrightarrow> untimed u s \<Longrightarrow> untimed u (step x s)"
  by (cases x)
     (auto simp: callRelease_def intro: untimed_requestMutex untimed_releaseMutex untimed_fire
        split: option.splits promise.splits)

lemma untimed_fold: "wf_world s \<Longrightarrow> untimed u s \<Longrightarrow> untimed u (fold step xs s)"
  by (induction xs arbitrary: s) (auto intro: untimed_step wf_step)

lemma untimed_run: "wf_world s \<Longrightarrow> untimed u s \<Longrightarrow> untimed u (run xs s)"
  by (simp add: run_def untimed_fold)

lemma requestMutex_untimed:
  assumes "wf_world s" "\<not> (\<exists>d. cfg_timeoutDelay cfg = Some d \<and> 0 < d)"
  shows "untimed (last_mutex_holder_id s + 1) (requestMutex code cfg s)"
  unfolding untimed_def
proof (intro conjI ballI allI)
  show "promises (requestMutex code cfg s) (last_mutex_holder_id s + 1) \<noteq> None" by simp
  show "promises (requestMutex code cfg s) (last_mutex_holder_id s + 1) \<noteq> Some (Rejected r)" for r
    by simp
  show "snd e \<noteq> TimeoutTask c (last_mutex_holder_id s + 1)"
    if "e \<in> set (timers (requestMutex code cfg s))" for e c
    using requestMutex_timers[OF that] assms wfD_task[of s e] by auto
qed


text \<open>
  C10. A request arms a timeout timer exactly when its \<open>timeoutDelay\<close> is a strictly positive
  number: with \<open>null\<close>, zero or a negative delay no timer exists for it and, whatever happens
  afterwards (requests, release calls, timer firings), its promise is never rejected; with a
  positive delay the timer is pending after the call and firing it rejects the promise. In
  both cases the promise is pending when \<open>requestMutex\<close> returns.
\<close>

theorem timeout_armed_iff_positive_delay:
  "((\<exists>tid. (tid, TimeoutTask code (last_mutex_holder_id (run ops init) + 1))
             \<in> set (timers (requestMutex code cfg (run ops init))))
      \<longleftrightarrow> (\<exists>d. cfg_timeoutDelay cfg = Some d \<and> 0 < d)) \<and>
   ((\<exists>ops' r. promises (run ops' (requestMutex code cfg (run ops init)))
                 (last_mutex_holder_id (run ops init) + 1) = Some (Rejected r))
      \<longleftrightarrow> (\<exists>d. cfg_timeoutDelay cfg = Some d \<and> 0 < d)) \<and>
   promises (requestMutex code cfg (run ops init)) (last_mutex_holder_id (run ops init) + 1)
     = Some Pending"
proof -
  let ?s = "run ops init"
  let ?u = "last_mutex_holder_id ?s + 1"
  let ?s1 = "requestMutex code cfg ?s"
  let ?pos = "\<exists>d. cfg_timeoutDelay cfg = Some d \<and> 0 < d"
  have w: "wf_world ?s" by (rule wf_run)
  have wt: "wf_timer_ids ?s" by (rule wf_timer_ids_run)
  have armed: "map_of (timers ?s1) (last_timer_id ?s + 1) = Some (TimeoutTask code ?u)" if ?pos
    using that requestMutex_arms_timer[OF wt] by blast
  have quiet: "untimed ?u (run ops' ?s1)" if "\<not> ?pos" for ops'
    using that w by (intro untimed_run wf_requestMutex requestMutex_untimed)
  have a: "(\<exists>tid. (tid, TimeoutTask code ?u) \<in> set (timers ?s1)) \<longleftrightarrow> ?pos"
  proof
    assume "\<exists>tid. (tid, TimeoutTask code ?u) \<in> set (timers ?s1)"
    then obtain tid where "(tid, TimeoutTask code ?u) \<in> set (timers ?s1)" ..
    then show ?pos
      using quiet[of "[]"] by (fastforce simp: untimed_def run_def)
  next
    assume ?pos
    from map_of_SomeD[OF armed[OF this]] show "\<exists>tid. (tid, TimeoutTask code ?u) \<in> set (timers ?s1)" ..
  qed
  have b: "(\<exists>ops' r. promises (run ops' ?s1) ?u = Some (Rejected r)) \<longleftrightarrow> ?pos"
  proof
    assume "\<exists>ops' r. promises (run ops' ?s1) ?u = Some (Rejected r)"
    then show ?pos using quiet by (auto simp: untimed_def)
  next
    assume ?pos
    from armed[OF this]
    have "promises (run [Fire (last_timer_id ?s + 1)] ?s1) ?u = Some (Rejected JUndefined)"
      by (simp add: run_def fire_def)
    then show "\<exists>ops' r. promises (run ops' ?s1) ?u = Some (Rejected r)" by blast
  qed
  from a b show ?thesis by simp
qed

text \<open>
  An instance: after holder 1 has taken the mutex, a request with delay 0 leaves no timeout
  timer behind, and a request with delay 50 does (timer 3 after the supersession timer 2 of
  the first).
\<close>

theorem timeout_armed_iff_positive_delay_witness:
  "\<not> (\<exists>d. cfg_timeoutDelay (timed 5 0) = Some d \<and> 0 < d) \<and>
   \<not> (\<exists>tid. (tid, TimeoutTask ''X'' 2)
           \<in> set (timers (requestMutex ''X'' (timed 5 0) (run [Request ''X'' (plain 1)] init)))) \<and>
   \<not> (\<exists>ops' r. promises (run ops' (requestMutex ''X'' (timed 5 0) (run [Request ''X'' (plain 1)] init))) 2
           = Some (Rejected r)) \<and>
   (\<exists>d. cfg_timeoutDelay (timed 5 50) = Some d \<and> 0 < d) \<and>
   (\<exists>ops' r. promises (run ops' (requestMutex ''X'' (timed 5 50) (run [Request ''X'' (plain 1)] init))) 2
           = Some (Rejected r))"
proof -
  have u: "last_mutex_holder_id (run [Request ''X'' (plain 1)] init) + 1 = 2"
    by code_simp
  have n: "\<not> (\<exists>d. cfg_timeoutDelay (timed 5 0) = Some d \<and> 0 < d)"
    by (simp add: timed_def)
  have p: "\<exists>d. cfg_timeoutDelay (timed 5 50) = Some d \<and> 0 < d"
    by (simp add: timed_def)
  show ?thesis
    using n p
      timeout_armed_iff_positive_delay[of "''X''" "[Request ''X'' (plain 1)]" "timed 5 0"]
      timeout_armed_iff_positive_delay[of "''X''" "[Request ''X'' (plain 1)]" "timed 5 50"]
    unfolding u by blast
qed

subsection \<open>Requests that timed out\<close>

lemma gone_requestMutex:
  assumes "wf_world s" "gone u code s"
  shows "gone u code (requestMutex c cfg s)"
proof (cases "c = code")
  case False
  with assms show ?thesis
    by (auto simp: gone_def requestMutex_other wfD_refs)
next
  case True
  have id: "uniqueId (newHolder code cfg s) = Suc (last_mutex_holder_id s)"
    by (simp add: newHolder_def)
  show ?thesis
  proof (cases "mutexAt s code")
    case None
    with True assms id show ?thesis by (auto simp: gone_def requestMutex_fresh)
  next
    case (Some m)
    with True assms id show ?thesis
      by (cases "currentHolder m") (auto simp: gone_def requestMutex_free requestMutex_held)
  qed
qed

lemma gone_releaseMutex:
  assumes "wf_world s" "gone u code s"
  shows "gone u code (releaseMutex c uid s)"
proof (cases "c = code")
  case False
  with assms show ?thesis
    by (auto simp: gone_def releaseMutex_other wfD_refs)
next
  case True
  show ?thesis
  proof (cases "\<exists>m0 cur. mutexAt s code = Some m0 \<and> currentHolder m0 = Some cur \<and> uniqueId cur = uid")
    case False
    then have "mutexAt (releaseMutex code uid s) code = None"
      by (intro releaseMutex_stale) auto
    with True assms show ?thesis by (simp add: gone_def)
  next
    case True': True
    then obtain m0 cur where m0: "mutexAt s code = Some m0" "currentHolder m0 = Some cur"
      "uniqueId cur = uid" by blast
    show ?thesis
    proof (cases "maxBy (pendingHolders m0) priority")
      case None
      then have "pendingHolders m0 = []" by (simp add: maxBy_None)
      with m0 True assms show ?thesis
        by (auto simp: gone_def releaseMutex_empty)
    next
      case (Some n)
      then have "n \<in> set (pendingHolders m0)" by (rule maxBy_mem)
      with Some m0 True assms show ?thesis
        by (auto simp: gone_def releaseMutex_promote)
    qed
  qed
qed

lemma gone_onTimeout:
  assumes "wf_world s" "gone u code s"
  shows "gone u code (onTimeout c uid s)"
proof (cases "c = code")
  case False
  with assms show ?thesis
    by (auto simp: gone_def onTimeout_other wfD_refs)
next
  case True
  with assms show ?thesis
    by (auto simp: gone_def onTimeout_at split: option.splits)
qed

lemma gone_fire:
  assumes "wf_world s" "gone u code s"
  shows "gone u code (fire tid s)"
proof (cases "map_of (timers s) tid")
  case None
  with assms show ?thesis by (simp add: fire_def)
next
  case (Some t)
  have c: "wf_world (clearTimeout tid s)" "gone u code (clearTimeout tid s)"
    using assms by (auto simp: gone_def wf_clearTimeout)
  have "gone u code (runTask t (clearTimeout tid s))"
  proof (cases t)
    case (TimeoutTask c' uid)
    with c show ?thesis by (simp add: gone_onTimeout)
  next
    case (AcquiredTask h)
    with c show ?thesis by (simp add: gone_def)
  next
    case (SupersessionTask a)
    with c show ?thesis by (simp add: gone_def)
  qed
  with Some show ?thesis by (simp add: fire_def)
qed

lemma gone_step: "wf_world s \<Longrightarrow> gone u code s \<Longrightarrow> gone u code (step x s)"
  by (cases x)
     (auto simp: callRelease_def intro: gone_requestMutex gone_releaseMutex gone_fire
        split: option.splits promise.splits)

lemma gone_fold: "wf_world s \<Longrightarrow> gone u code s \<Longrightarrow> gone u code (fold step xs s)"
  by (induction xs arbitrary: s) (auto intro: gone_step wf_step)

lemma fulfilled_step:
  assumes "wf_world s" "promises s u = Some (Fulfilled c v)"
  shows "promises (step x s) u = Some (Fulfilled c v)"
proof (cases x)
  case (Request code cfg)
  from assms have "u \<le> last_mutex_holder_id s"
    using wfD_promise[of s u] by (auto simp: not_less[symmetric])
  with Request assms show ?thesis by simp
next
  case (CallRelease uid)
  with assms show ?thesis
    by (auto simp: callRelease_def split: option.splits promise.splits)
next
  case (Fire tid)
  show ?thesis
  proof (cases "map_of (timers s) tid")
    case None
    with Fire assms show ?thesis by (simp add: fire_def)
  next
    case (Some t)
    with Fire assms show ?thesis
      by (cases t) (auto simp: fire_def)
  qed
qed

lemma fulfilled_fold:
  "wf_world s \<Longrightarrow> promises s u = Some (Fulfilled c v) \<Longrightarrow>
     promises (fold step xs s) u = Some (Fulfilled c v)"
  by (induction xs arbitrary: s) (auto intro: fulfilled_step wf_step)


lemma gone_run: "wf_world s \<Longrightarrow> gone u code s \<Longrightarrow> gone u code (run xs s)"
  by (simp add: run_def gone_fold)

lemma fulfilled_run:
  "wf_world s \<Longrightarrow> promises s u = Some (Fulfilled c v) \<Longrightarrow>
     promises (run xs s) u = Some (Fulfilled c v)"
  by (simp add: run_def fulfilled_fold)


text \<open>
  C3, as stated, fails twice. First, the timeout callback calls \<open>reject()\<close> without an
  argument: the promise of the waiting request 2 is rejected with \<open>undefined\<close>, not with a
  \<open>TimeoutError\<close>. Second, a promoted request can still be rejected by its own timer: the
  timer is only cleared inside \<open>onAcquired\<close>, which runs in a later timer task than the
  release that promoted the request. When the timeout timer (2) fires between the release and
  that task (4), request 2 is rejected although it is the current holder, and stays rejected
  and holder after \<open>onAcquired\<close> has run.
\<close>

theorem timeout_claim_counterexample:
  "promises (run (waiting_example @ [Fire 2]) init) 2 = Some (Rejected JUndefined) \<and>
   JUndefined \<noteq> JError ''TimeoutError'' \<and>
   mutexAt (run (take 5 late_timeout_example) init) ''X'' =
     Some \<lparr>currentHolder = Some (timedHolder 2 5 2), pendingHolders = []\<rparr> \<and>
   promises (run (take 5 late_timeout_example) init) 2 = Some Pending \<and>
   promises (run (take 6 late_timeout_example) init) 2 = Some (Rejected JUndefined) \<and>
   promises (run late_timeout_example init) 2 = Some (Rejected JUndefined) \<and>
   mutexAt (run late_timeout_example init) ''X'' =
     Some \<lparr>currentHolder = Some (timedHolder 2 5 2), pendingHolders = []\<rparr>"
  by code_simp

text \<open>
  C3, amended. When the timeout timer of a request fires while its promise is still pending
  and the request is not the current holder, the promise is rejected (with \<open>undefined\<close>) and
  the request leaves \<open>pendingHolders\<close>; from then on it is never again pending or current
  holder of that mutex, whatever is requested, released or fired. When the \<open>onAcquired\<close>
  callback of a holder runs while its promise is pending, the promise is fulfilled for good
  and the holder's timeout timer, if any, is no longer pending.
\<close>

theorem timeout_rejects_and_dequeues:
  "(map_of (timers (run ops init)) tid = Some (TimeoutTask code uid) \<and>
    promises (run ops init) uid = Some Pending \<and>
    (\<forall>m. mutexAt (run ops init) code = Some m \<longrightarrow>
           map_option uniqueId (currentHolder m) \<noteq> Some uid)
    \<longrightarrow> promises (fire tid (run ops init)) uid = Some (Rejected JUndefined) \<and>
        (\<forall>ops' m. mutexAt (run ops' (fire tid (run ops init))) code = Some m \<longrightarrow>
           uid \<notin> uniqueId ` set (pendingHolders m) \<and>
           map_option uniqueId (currentHolder m) \<noteq> Some uid)) \<and>
   (map_of (timers (run ops init)) tid = Some (AcquiredTask h) \<and>
    promises (run ops init) (uniqueId h) = Some Pending
    \<longrightarrow> (\<forall>ops'. promises (run ops' (fire tid (run ops init))) (uniqueId h)
                   = Some (Fulfilled (mutexCode h) (uniqueId h))) \<and>
        (\<forall>t. cancelTimeoutId h = Some t \<longrightarrow> map_of (timers (fire tid (run ops init))) t = None))"
proof (intro conjI impI)
  let ?s = "run ops init"
  assume a: "map_of (timers ?s) tid = Some (TimeoutTask code uid) \<and>
    promises ?s uid = Some Pending \<and>
    (\<forall>m. mutexAt ?s code = Some m \<longrightarrow> map_option uniqueId (currentHolder m) \<noteq> Some uid)"
  have w: "wf_world ?s" by (rule wf_run)
  from a have mem: "(tid, TimeoutTask code uid) \<in> set (timers ?s)"
    by (auto dest: map_of_SomeD)
  with w have le: "uid \<le> last_mutex_holder_id ?s"
    by (auto dest: wfD_task)
  have f: "fire tid ?s = onTimeout code uid (clearTimeout tid ?s)"
    using a by (simp add: fire_def)
  show "promises (fire tid ?s) uid = Some (Rejected JUndefined)"
    using a by (simp add: f)
  have g: "gone uid code (fire tid ?s)"
    using a le by (auto simp: gone_def f onTimeout_at split: option.splits)
  have "gone uid code (run ops' (fire tid ?s))" for ops'
    using wf_fire[OF w] g by (rule gone_run)
  then show "\<forall>ops' m. mutexAt (run ops' (fire tid ?s)) code = Some m \<longrightarrow>
           uid \<notin> uniqueId ` set (pendingHolders m) \<and>
           map_option uniqueId (currentHolder m) \<noteq> Some uid"
    by (simp add: gone_def)
next
  let ?s = "run ops init"
  assume a: "map_of (timers ?s) tid = Some (AcquiredTask h) \<and>
    promises ?s (uniqueId h) = Some Pending"
  have w: "wf_world ?s" by (rule wf_run)
  have f: "fire tid ?s = onAcquired h (clearTimeout tid ?s)"
    using a by (simp add: fire_def)
  have "promises (fire tid ?s) (uniqueId h) = Some (Fulfilled (mutexCode h) (uniqueId h))"
    using a by (simp add: f)
  then have "promises (run ops' (fire tid ?s)) (uniqueId h)
                   = Some (Fulfilled (mutexCode h) (uniqueId h))" for ops'
    using wf_fire[OF w] by (intro fulfilled_run)
  then show "\<forall>ops'. promises (run ops' (fire tid ?s)) (uniqueId h)
                   = Some (Fulfilled (mutexCode h) (uniqueId h))" ..
  show "\<forall>t. cancelTimeoutId h = Some t \<longrightarrow> map_of (timers (fire tid ?s)) t = None"
    by (auto simp: f onAcquired_timers map_of_eq_None_iff)
qed

text \<open>
  An instance: request 2 waits behind holder 1 with a delay of 50; its timer (2) fires. The
  promise is rejected and, after the supersession timer has fired and holder 1 has released,
  the mutex is free: request 2 was not promoted. And the \<open>onAcquired\<close> task (1) of request 1
  fulfils its promise.
\<close>

theorem timeout_rejects_and_dequeues_witness:
  "map_of (timers (run waiting_example init)) 2 = Some (TimeoutTask ''X'' 2) \<and>
   promises (run waiting_example init) 2 = Some Pending \<and>
   mutexAt (run waiting_example init) ''X'' =
     Some \<lparr>currentHolder = Some (mkHolder 1 1), pendingHolders = [timedHolder 2 5 2]\<rparr> \<and>
   promises (fire 2 (run waiting_example init)) 2 = Some (Rejected JUndefined) \<and>
   mutexAt (run [Fire 3, CallRelease 1] (fire 2 (run waiting_example init))) ''X'' =
     Some \<lparr>currentHolder = None, pendingHolders = []\<rparr> \<and>
   map_of (timers (run [Request ''X'' (plain 1)] init)) 1 = Some (AcquiredTask (mkHolder 1 1)) \<and>
   promises (run [Request ''X'' (plain 1)] init) (uniqueId (mkHolder 1 1)) = Some Pending \<and>
   promises (run [] (fire 1 (run [Request ''X'' (plain 1)] init))) (uniqueId (mkHolder 1 1)) =
     Some (Fulfilled (mutexCode (mkHolder 1 1)) (uniqueId (mkHolder 1 1)))"
proof -
  have h1: "map_of (timers (run waiting_example init)) 2 = Some (TimeoutTask ''X'' 2)"
    by code_simp
  have h2: "promises (run waiting_example init) 2 = Some Pending"
    by code_simp
  have m: "mutexAt (run waiting_example init) ''X'' =
     Some \<lparr>currentHolder = Some (mkHolder 1 1), pendingHolders = [timedHolder 2 5 2]\<rparr>"
    by code_simp
  have h3: "\<forall>m. mutexAt (run waiting_example init) ''X'' = Some m \<longrightarrow>
           map_option uniqueId (currentHolder m) \<noteq> Some 2"
    unfolding m by (simp add: mkHolder_def)
  have c: "mutexAt (run [Fire 3, CallRelease 1] (fire 2 (run waiting_example init))) ''X'' =
     Some \<lparr>currentHolder = None, pendingHolders = []\<rparr>"
    by code_simp
  have k1: "map_of (timers (run [Request ''X'' (plain 1)] init)) 1 = Some (AcquiredTask (mkHolder 1 1))"
    by code_simp
  have k2: "promises (run [Request ''X'' (plain 1)] init) (uniqueId (mkHolder 1 1)) = Some Pending"
    by code_simp
  show ?thesis
    using h1 h2 h3 m c k1 k2
      timeout_rejects_and_dequeues[of "waiting_example" 2 "''X''" 2]
      timeout_rejects_and_dequeues[of "[Request ''X'' (plain 1)]" 1 _ _ "mkHolder 1 1"]
    by blast
qed

text \<open>
  C8. The supersession timer does not notify the holder that held the mutex when the request
  came in: its callback reads \<open>mutex.currentHolder\<close> only when it fires. First run: holder 1
  (priority 1) holds the mutex, request 2 (priority 5) comes in and holder 1 releases before
  the timer (2) fires; the timer then calls the \<open>onSupersessionRequest\<close> callback of holder
  2, the requester itself, and holder 1 is never notified. Second run: request 2 (priority 10)
  waits behind holder 1, request 3 (priority 5) comes in and holder 1 releases before the
  timer (3) of request 3 fires; the timer then notifies holder 2, whose priority the request
  does not exceed.
\<close>

theorem supersession_notifies_later_holder:
  "mutexAt (run (take 2 supersession_example) init) ''X'' =
     Some \<lparr>currentHolder = Some (mkHolder 1 1), pendingHolders = []\<rparr> \<and>
   timers (run (take 3 supersession_example) init) = [(2, SupersessionTask 0)] \<and>
   mutexAt (run (take 4 supersession_example) init) ''X'' =
     Some \<lparr>currentHolder = Some (mkHolder 2 5), pendingHolders = []\<rparr> \<and>
   notifications (run (take 5 supersession_example) init) = [OnAcquired 1, OnSupersessionRequest 2] \<and>
   notifications (run supersession_example init) =
     [OnAcquired 1, OnSupersessionRequest 2, OnAcquired 2] \<and>
   mutexAt (run (take 4 outranked_example) init) ''X'' =
     Some \<lparr>currentHolder = Some (mkHolder 1 1), pendingHolders = [mkHolder 2 10]\<rparr> \<and>
   timers (run (take 5 outranked_example) init) = [(3, SupersessionTask 0)] \<and>
   mutexAt (run (take 6 outranked_example) init) ''X'' =
     Some \<lparr>currentHolder = Some (mkHolder 2 10), pendingHolders = [mkHolder 3 5]\<rparr> \<and>
   notifications (run outranked_example init) =
     [OnAcquired 1, OnSupersessionRequest 1, OnSupersessionRequest 2]"
  by code_simp


section \<open>Facts about the event registry\<close>

lemma getEventListeners_set [simp]:
  "getEventListeners (setEventListeners e ls reg) e' =
     (if e' = e then ls else getEventListeners reg e')"
  by (simp add: getEventListeners_def setEventListeners_def)

lemma getEventListeners_unique_id [simp]:
  "getEventListeners (snd (getUniqueEventListenerId reg)) e = getEventListeners reg e"
  by (simp add: getEventListeners_def getUniqueEventListenerId_def Let_def)

lemma isEmptyObject_iff [simp]: "isEmptyObject ls \<longleftrightarrow> ls = []"
  by (cases ls) (simp_all add: isEmptyObject_def)



lemma unregisterEventListener_listeners [simp]:
  "getEventListeners (unregisterEventListener e i reg) e' =
     (if e' = e then AList.delete i (getEventListeners reg e) else getEventListeners reg e')"
  by (simp add: unregisterEventListener_def)

lemma registerEventListener_listeners [simp]:
  "getEventListeners (snd (registerEventListener e cb (Some i) reg)) e' =
     (if e' = e then AList.update i cb (getEventListeners reg e) else getEventListeners reg e')"
  by (simp add: registerEventListener_def)

lemma defaultRegisterBaseListener_listeners [simp]:
  "getEventListeners (defaultRegisterBaseListener e cb i reg) e' =
     (if e' = e then AList.update i cb (getEventListeners reg e) else getEventListeners reg e')"
  by (simp add: defaultRegisterBaseListener_def)







subsection \<open>Sequences of registrations and unregistrations\<close>














section \<open>Claims about the event registry\<close>






subsection \<open>Dispatching\<close>

lemma successfulResults_Nil [simp]: "successfulResults [] p = []"
  by (simp add: successfulResults_def)

lemma successfulResults_Cons [simp]:
  "successfulResults (l # ls) p =
     (case listenerResult (snd l) p of None \<Rightarrow> [] | Some v \<Rightarrow> [v]) @ successfulResults ls p"
  by (simp add: successfulResults_def split: option.splits)

lemma callListener_returns:
  assumes "\<forall>d mp xs. snd l = BaseListener d mp \<longrightarrow> mp p = Some (JArr xs) \<longrightarrow> disp d xs \<noteq> None"
  shows "\<exists>tr. callListener disp ev l p = Some (listenerResult (snd l) p, tr) \<and>
              Invoked ev (fst l) p \<in> set tr"
proof (cases l)
  case (Pair i c)
  show ?thesis
  proof (cases c)
    case (Callback f)
    with Pair show ?thesis by simp
  next
    case (BaseListener d mp)
    show ?thesis
    proof (cases "mp p")
      case None
      with Pair BaseListener show ?thesis by simp
    next
      case (Some v)
      show ?thesis
      proof (cases "\<exists>xs. v = JArr xs")
        case False
        with Pair BaseListener Some show ?thesis by (cases v) auto
      next
        case True
        then obtain xs where v: "v = JArr xs" ..
        with assms Pair BaseListener Some have "disp d xs \<noteq> None" by simp
        then obtain r t where "disp d xs = Some (r, t)" by fastforce
        with Pair BaseListener Some v show ?thesis by simp
      qed
    qed
  qed
qed

lemma flatMapListeners_returns:
  assumes "\<forall>i d mp xs. (i, BaseListener d mp) \<in> set ls \<longrightarrow> mp p = Some (JArr xs) \<longrightarrow>
             disp d xs \<noteq> None"
  shows "\<exists>tr. flatMapListeners disp ev ls p = Some (successfulResults ls p, tr) \<and>
              (\<forall>e\<in>set ls. Invoked ev (fst e) p \<in> set tr)"
  using assms
proof (induction ls)
  case Nil
  then show ?case by simp
next
  case (Cons l ls)
  have a: "\<forall>d mp xs. snd l = BaseListener d mp \<longrightarrow> mp p = Some (JArr xs) \<longrightarrow> disp d xs \<noteq> None"
  proof (intro allI impI)
    fix d mp xs
    assume "snd l = BaseListener d mp" "mp p = Some (JArr xs)"
    moreover from this(1) have "(fst l, BaseListener d mp) \<in> set (l # ls)" by (cases l) simp
    ultimately show "disp d xs \<noteq> None" using Cons.prems by blast
  qed
  from callListener_returns[OF a, of ev] obtain t where
    t: "callListener disp ev l p = Some (listenerResult (snd l) p, t)" "Invoked ev (fst l) p \<in> set t"
    by blast
  have "\<forall>i d mp xs. (i, BaseListener d mp) \<in> set ls \<longrightarrow> mp p = Some (JArr xs) \<longrightarrow>
             disp d xs \<noteq> None"
    using Cons.prems by auto
  from Cons.IH[OF this] obtain ts where
    ts: "flatMapListeners disp ev ls p = Some (successfulResults ls p, ts)"
        "\<forall>e\<in>set ls. Invoked ev (fst e) p \<in> set ts"
    by blast
  from t ts show ?case by auto
qed

lemma dispatchEvent_returns:
  assumes "derivation_rank rank reg"
  shows "rank ev < n \<Longrightarrow>
     \<exists>tr. dispatchEvent n reg ev p =
            Some (if isEmptyObject (getEventListeners reg ev) then None
                  else Some (successfulResults (getEventListeners reg ev) p), tr) \<and>
          (\<forall>e\<in>set (getEventListeners reg ev). Invoked ev (fst e) p \<in> set tr)"
proof (induction n arbitrary: ev p)
  case 0
  then show ?case by simp
next
  case (Suc n)
  let ?ls = "getEventListeners reg ev"
  show ?case
  proof (cases "?ls = []")
    case True
    then show ?thesis by (simp add: withEventListeners_def Let_def)
  next
    case False
    have a: "\<forall>i d mp xs. (i, BaseListener d mp) \<in> set ?ls \<longrightarrow> mp p = Some (JArr xs) \<longrightarrow>
        dispatchEvent n reg d xs \<noteq> None"
    proof (intro allI impI)
      fix i d mp xs
      assume "(i, BaseListener d mp) \<in> set ?ls"
      with assms have "rank d < rank ev" by (auto simp: derivation_rank_def)
      with Suc.prems have "rank d < n" by simp
      from Suc.IH[OF this, of xs] show "dispatchEvent n reg d xs \<noteq> None" by auto
    qed
    from flatMapListeners_returns[OF a, of ev] obtain tr where
      "flatMapListeners (dispatchEvent n reg) ev ?ls p = Some (successfulResults ?ls p, tr)"
      "\<forall>e\<in>set ?ls. Invoked ev (fst e) p \<in> set tr"
      by blast
    with False show ?thesis by (simp add: withEventListeners_def Let_def)
  qed
qed

lemma flatMapListeners_callbacks:
  assumes "\<forall>e\<in>set ls. \<exists>f. snd e = Callback f"
  shows "flatMapListeners disp ev ls p =
           Some (successfulResults ls p, map (\<lambda>e. Invoked ev (fst e) p) ls)"
  using assms
proof (induction ls)
  case Nil
  then show ?case by simp
next
  case (Cons l ls)
  then obtain i f where "l = (i, Callback f)" by (cases l) auto
  with Cons show ?case by simp
qed

lemma dispatchEvent_callbacks:
  assumes "\<forall>e\<in>set (getEventListeners reg ev). \<exists>f. snd e = Callback f"
    and "getEventListeners reg ev \<noteq> []"
  shows "dispatchEvent (Suc n) reg ev p =
           Some (Some (successfulResults (getEventListeners reg ev) p),
                 Dispatched ev p # map (\<lambda>e. Invoked ev (fst e) p) (getEventListeners reg ev))"
  using assms by (simp add: withEventListeners_def Let_def flatMapListeners_callbacks)

subsection \<open>The calls made by a dispatch\<close>

lemma bounded_trace_append:
  "bounded_trace rank ev p (xs @ ys) \<longleftrightarrow> bounded_trace rank ev p xs \<and> bounded_trace rank ev p ys"
  unfolding bounded_trace_def set_append Un_iff by blast

lemma bounded_trace_lower:
  assumes "bounded_trace rank d xs tr" "rank d < rank ev"
  shows "bounded_trace rank ev p (Dispatched d xs # tr)"
  using assms by (fastforce simp: bounded_trace_def)

lemma callListener_bounded:
  assumes disp: "\<forall>d xs r t. disp d xs = Some (r, t) \<longrightarrow>
                   (\<exists>t'. t = Dispatched d xs # t' \<and> bounded_trace rank d xs t')"
    and low: "\<forall>d mp. snd l = BaseListener d mp \<longrightarrow> rank d < rank ev"
    and call: "callListener disp ev l p = Some (r, tr)"
  shows "bounded_trace rank ev p tr"
proof (cases l)
  case (Pair i c)
  show ?thesis
  proof (cases c)
    case (Callback f)
    with Pair call show ?thesis by (auto simp: bounded_trace_def)
  next
    case (BaseListener d mp)
    with Pair low have lt: "rank d < rank ev" by simp
    show ?thesis
    proof (cases "mp p")
      case None
      with Pair BaseListener call show ?thesis by (auto simp: bounded_trace_def)
    next
      case (Some v)
      show ?thesis
      proof (cases "\<exists>xs. v = JArr xs")
        case False
        with Pair BaseListener Some call show ?thesis
          by (cases v) (auto simp: bounded_trace_def)
      next
        case True
        then obtain xs where v: "v = JArr xs" ..
        with Pair BaseListener Some call obtain r' t where
          d: "disp d xs = Some (r', t)" and tr: "tr = Invoked ev i p # t"
          by (auto split: option.splits)
        from disp d obtain t' where t': "t = Dispatched d xs # t'" "bounded_trace rank d xs t'"
          by blast
        from bounded_trace_lower[OF t'(2) lt, of p] have "bounded_trace rank ev p t"
          by (simp add: t'(1))
        then show ?thesis by (auto simp: tr bounded_trace_def)
      qed
    qed
  qed
qed

lemma flatMapListeners_bounded:
  assumes disp: "\<forall>d xs r t. disp d xs = Some (r, t) \<longrightarrow>
                   (\<exists>t'. t = Dispatched d xs # t' \<and> bounded_trace rank d xs t')"
  shows "\<forall>i d mp. (i, BaseListener d mp) \<in> set ls \<longrightarrow> rank d < rank ev \<Longrightarrow>
         flatMapListeners disp ev ls p = Some (rs, tr) \<Longrightarrow> bounded_trace rank ev p tr"
proof (induction ls arbitrary: rs tr)
  case Nil
  then show ?case by (simp add: bounded_trace_def)
next
  case (Cons l ls)
  from Cons.prems(2) obtain r t rs' ts where
    c: "callListener disp ev l p = Some (r, t)"
    and f: "flatMapListeners disp ev ls p = Some (rs', ts)"
    and tr: "tr = t @ ts"
    by (auto split: option.splits)
  have low: "\<forall>d mp. snd l = BaseListener d mp \<longrightarrow> rank d < rank ev"
  proof (intro allI impI)
    fix d mp
    assume "snd l = BaseListener d mp"
    then have "(fst l, BaseListener d mp) \<in> set (l # ls)" by (cases l) simp
    with Cons.prems(1) show "rank d < rank ev" by blast
  qed
  from callListener_bounded[OF disp low c] have "bounded_trace rank ev p t" .
  moreover have "\<forall>i d mp. (i, BaseListener d mp) \<in> set ls \<longrightarrow> rank d < rank ev"
    using Cons.prems(1) by auto
  from Cons.IH[OF this f] have "bounded_trace rank ev p ts" .
  ultimately show ?case by (simp add: tr bounded_trace_append)
qed

lemma dispatchEvent_bounded:
  assumes "derivation_rank rank reg"
  shows "dispatchEvent n reg ev p = Some (r, tr) \<Longrightarrow>
         \<exists>tr'. tr = Dispatched ev p # tr' \<and> bounded_trace rank ev p tr'"
proof (induction n arbitrary: ev p r tr)
  case 0
  then show ?case by simp
next
  case (Suc n)
  let ?ls = "getEventListeners reg ev"
  show ?case
  proof (cases "?ls = []")
    case True
    with Suc.prems show ?thesis by (auto simp: withEventListeners_def Let_def bounded_trace_def)
  next
    case False
    with Suc.prems obtain rs t where
      f: "flatMapListeners (dispatchEvent n reg) ev ?ls p = Some (rs, t)"
      and tr: "tr = Dispatched ev p # t"
      by (auto simp: withEventListeners_def Let_def split: option.splits)
    have low: "\<forall>i d mp. (i, BaseListener d mp) \<in> set ?ls \<longrightarrow> rank d < rank ev"
      using assms by (auto simp: derivation_rank_def)
    have ih: "\<forall>d xs r t. dispatchEvent n reg d xs = Some (r, t) \<longrightarrow>
                   (\<exists>t'. t = Dispatched d xs # t' \<and> bounded_trace rank d xs t')"
      using Suc.IH by blast
    from flatMapListeners_bounded[OF ih low f] have "bounded_trace rank ev p t" .
    with tr show ?thesis by blast
  qed
qed

lemma dispatchesOf_empty:
  "(\<forall>q. Dispatched ev q \<notin> set tr) \<Longrightarrow> dispatchesOf ev tr = []"
  by (induction ev tr rule: dispatchesOf.induct) auto


lemma three_listeners_listeners:
  "getEventListeners three_listeners e =
     (if e = ''e'' then [(''a'', Callback (\<lambda>p. Some (JNum 1))), (''b'', Callback (\<lambda>p. None)),
                         (''c'', Callback (\<lambda>p. Some (JBool False)))]
      else [])"
  by (simp add: three_listeners_def empty_registry_def getEventListeners_def
        registerEventListener_def setEventListeners_def)

lemma derived_example_listeners:
  "getEventListeners derived_example e =
     (if e = ''parsed'' then [(''__listener::1__'', example_listener)]
      else if e = ''raw'' then [(''__raw::parsed__'', BaseListener ''parsed'' example_mapPayload)]
      else [])"
proof -
  have "show_nat 1 = ''1''" by code_simp
  then show ?thesis
    by (simp add: derived_example_def registerDerivedEventListener_def empty_registry_def
        getEventListeners_def registerEventListener_def setEventListeners_def Let_def
        defaultRegisterBaseListener_def hasEventListener_def getUniqueEventListenerId_def
        baseListenerId_def)
qed

text \<open>
  C5. In a registry whose derivations are acyclic, take the hidden listener that
  \<open>registerDerivedEventListener\<close> installs on the base event type for a derived event type,
  and let it receive a base payload (with enough fuel for the derived dispatch). The call
  returns, and it dispatches the derived event type exactly once, with the elements of the
  array as payload, if \<open>mapPayload\<close> returns an array, and not at all otherwise (a non-array
  result or an exception). Listeners of the derived event type are called only with that
  array's elements, and all of them are when there is such an array.
\<close>

theorem hidden_listener_dispatches_iff_array:
  assumes "derivation_rank rank reg"
    and "(hid, BaseListener D mp) \<in> set (getEventListeners reg B)"
    and "rank D < n"
  shows "\<exists>r tr. callListener (dispatchEvent n reg) B (hid, BaseListener D mp) payload = Some (r, tr) \<and>
           dispatchesOf D tr = (case mp payload of Some (JArr xs) \<Rightarrow> [xs] | _ \<Rightarrow> []) \<and>
           (\<forall>i q. Invoked D i q \<in> set tr \<longrightarrow> mp payload = Some (JArr q)) \<and>
           (\<forall>xs. mp payload = Some (JArr xs) \<longrightarrow>
              (\<forall>e\<in>set (getEventListeners reg D). Invoked D (fst e) xs \<in> set tr))"
proof -
  from assms(1,2) have lt: "rank D < rank B" by (auto simp: derivation_rank_def)
  then have ne: "B \<noteq> D" by auto
  show ?thesis
  proof (cases "\<exists>xs. mp payload = Some (JArr xs)")
    case False
    then have "callListener (dispatchEvent n reg) B (hid, BaseListener D mp) payload
                 = Some (listenerResult (BaseListener D mp) payload, [Invoked B hid payload])"
      by (cases "mp payload"; cases "the (mp payload)") auto
    moreover have "(case mp payload of Some (JArr xs) \<Rightarrow> [xs] | _ \<Rightarrow> []) = []"
      using False by (cases "mp payload"; cases "the (mp payload)") auto
    ultimately show ?thesis using False ne by auto
  next
    case True
    then obtain xs where xs: "mp payload = Some (JArr xs)" ..
    from dispatchEvent_returns[OF assms(1,3), of xs] obtain t r0 where
      d: "dispatchEvent n reg D xs = Some (r0, t)"
      and all: "\<forall>e\<in>set (getEventListeners reg D). Invoked D (fst e) xs \<in> set t"
      by blast
    from dispatchEvent_bounded[OF assms(1) d] obtain t' where
      t': "t = Dispatched D xs # t'" "bounded_trace rank D xs t'" by blast
    have call: "callListener (dispatchEvent n reg) B (hid, BaseListener D mp) payload
                  = Some (Some JUndefined, Invoked B hid payload # t)"
      using xs d by simp
    have "\<forall>q. Dispatched D q \<notin> set t'"
      using t'(2) by (auto simp: bounded_trace_def)
    then have "dispatchesOf D t' = []" by (rule dispatchesOf_empty)
    then have c1: "dispatchesOf D (Invoked B hid payload # t) = [xs]"
      by (simp add: t'(1))
    have c2: "\<forall>i q. Invoked D i q \<in> set (Invoked B hid payload # t) \<longrightarrow> mp payload = Some (JArr q)"
    proof (intro allI impI)
      fix i q
      assume "Invoked D i q \<in> set (Invoked B hid payload # t)"
      with ne have "Invoked D i q \<in> set t'" by (auto simp: t'(1))
      with t'(2) have "q = xs" unfolding bounded_trace_def by blast
      with xs show "mp payload = Some (JArr q)" by simp
    qed
    have c3: "\<forall>ys. mp payload = Some (JArr ys) \<longrightarrow>
              (\<forall>e\<in>set (getEventListeners reg D). Invoked D (fst e) ys \<in> set (Invoked B hid payload # t))"
      using all xs by auto
    from call c1 c2 c3 xs show ?thesis by auto
  qed
qed

text \<open>
  An instance: one listener is registered for \<open>parsed\<close>, derived from \<open>raw\<close>. When \<open>raw\<close> is
  dispatched with the array \<open>[7]\<close> as its only argument, \<open>parsed\<close> is dispatched with 7; when
  it is dispatched with the number 7, \<open>parsed\<close> is not dispatched.
\<close>

theorem hidden_listener_dispatches_iff_array_witness:
  "derivation_rank example_rank derived_example \<and>
   (''__raw::parsed__'', BaseListener ''parsed'' example_mapPayload)
     \<in> set (getEventListeners derived_example ''raw'') \<and>
   example_rank ''parsed'' < 1 \<and>
   (\<exists>r tr. callListener (dispatchEvent 1 derived_example) ''raw''
              (''__raw::parsed__'', BaseListener ''parsed'' example_mapPayload) [JArr [JNum 7]]
              = Some (r, tr) \<and>
            dispatchesOf ''parsed'' tr = [[JNum 7]]) \<and>
   (\<exists>r tr. callListener (dispatchEvent 1 derived_example) ''raw''
              (''__raw::parsed__'', BaseListener ''parsed'' example_mapPayload) [JNum 7]
              = Some (r, tr) \<and>
            dispatchesOf ''parsed'' tr = [])"
proof -
  have h1: "derivation_rank example_rank derived_example"
    by (auto simp: derivation_rank_def derived_example_listeners example_rank_def
          example_listener_def split: if_splits)
  have h2: "(''__raw::parsed__'', BaseListener ''parsed'' example_mapPayload)
     \<in> set (getEventListeners derived_example ''raw'')"
    by (simp add: derived_example_listeners)
  have h3: "example_rank ''parsed'' < 1"
    by (simp add: example_rank_def)
  have m1: "example_mapPayload [JArr [JNum 7]] = Some (JArr [JNum 7])"
    and m2: "example_mapPayload [JNum 7] = Some JUndefined"
    by (simp_all add: example_mapPayload_def)
  from hidden_listener_dispatches_iff_array[OF h1 h2 h3, of "[JArr [JNum 7]]"]
       hidden_listener_dispatches_iff_array[OF h1 h2 h3, of "[JNum 7]"]
       h1 h2 h3
  show ?thesis
    unfolding m1 m2 by (simp) blast
qed

text \<open>
  C6. In a registry whose derivations are acyclic, a dispatch with enough fuel always returns
  a value, never an exception: \<open>null\<close> when the event type has no listener, and otherwise
  the list of the values returned by the listeners that did not throw, in registration
  order. Every registered listener is called with the payload, whether or not another
  listener throws.
\<close>

theorem dispatch_isolates_listener_failures:
  assumes "derivation_rank rank reg" and "rank event < n"
  shows "\<exists>tr. dispatchEvent n reg event payload =
                 Some (if isEmptyObject (getEventListeners reg event) then None
                       else Some (successfulResults (getEventListeners reg event) payload), tr) \<and>
              (\<forall>e\<in>set (getEventListeners reg event). Invoked event (fst e) payload \<in> set tr)"
  using assms by (rule dispatchEvent_returns)

text \<open>
  An instance: of three listeners, the second throws. The dispatch returns the results of
  the first and the third and has called all three; an event type without listeners yields
  \<open>null\<close>.
\<close>

theorem dispatch_isolates_listener_failures_witness:
  "derivation_rank (\<lambda>e. 0) three_listeners \<and> (0::nat) < 1 \<and>
   (\<exists>tr. dispatchEvent 1 three_listeners ''e'' [JNum 7] = Some (Some [JNum 1, JBool False], tr) \<and>
         Invoked ''e'' ''a'' [JNum 7] \<in> set tr \<and> Invoked ''e'' ''b'' [JNum 7] \<in> set tr \<and>
         Invoked ''e'' ''c'' [JNum 7] \<in> set tr) \<and>
   (\<exists>tr. dispatchEvent 1 three_listeners ''other'' [JNum 7] = Some (None, tr))"
proof -
  have h: "derivation_rank (\<lambda>e. 0) three_listeners"
    by (auto simp: derivation_rank_def three_listeners_listeners split: if_splits)
  have l: "(0::nat) < 1" by simp
  from dispatch_isolates_listener_failures[OF h l, of "''e''" "[JNum 7]"]
       dispatch_isolates_listener_failures[OF h l, of "''other''" "[JNum 7]"]
       h
  show ?thesis
    by (simp add: three_listeners_listeners)
qed


section \<open>When callbacks run\<close>

text \<open>
  C7, as stated, fails for event listeners: \<open>dispatchEvent\<close> calls them itself, before it
  returns. Dispatching \<open>raw\<close> with the array \<open>[7]\<close> calls the hidden listener, which
  dispatches \<open>parsed\<close>, which calls the registered callback with 7, all inside the one call.
\<close>

theorem listeners_run_inside_dispatch:
  "dispatchEvent 2 derived_example ''raw'' [JArr [JNum 7]] =
     Some (Some [JUndefined],
           [Dispatched ''raw'' [JArr [JNum 7]],
            Invoked ''raw'' ''__raw::parsed__'' [JArr [JNum 7]],
            Dispatched ''parsed'' [JNum 7],
            Invoked ''parsed'' ''__listener::1__'' [JNum 7]])"
  by code_simp

lemma requestMutex_schedules_acquired:
  assumes "\<forall>m. mutexAt s code = Some m \<longrightarrow> currentHolder m = None"
  shows "\<exists>tid. (tid, AcquiredTask (newHolder code cfg s)) \<in> set (timers (requestMutex code cfg s))"
  using assms
  by (auto simp: requestMutex_def mutex_defs newHolder_def split: option.splits slot.splits)

lemma requestMutex_schedules_supersession:
  assumes "mutexes s code = Some (Ref a)" "currentHolder (heap s a) = Some cur"
    "priority cur < priority (newHolder code cfg s)"
  shows "\<exists>tid. (tid, SupersessionTask a) \<in> set (timers (requestMutex code cfg s))"
  using assms
  by (auto simp: requestMutex_def mutex_defs newHolder_def split: option.splits slot.splits)

lemma fire_acquired_notifies:
  assumes "map_of (timers s) tid = Some (AcquiredTask h)"
  shows "notifications (fire tid s) = notifications s @ [OnAcquired (uniqueId h)]"
  using assms by (simp add: fire_def)

lemma fire_supersession_notifies:
  assumes "map_of (timers s) tid = Some (SupersessionTask a)" "currentHolder (heap s a) = Some cur"
  shows "notifications (fire tid s) = notifications s @ [OnSupersessionRequest (uniqueId cur)]"
  using assms by (simp add: fire_def onSupersession_def clearTimeout_def)

lemma step_notifications:
  assumes "\<forall>tid. x \<noteq> Fire tid"
  shows "notifications (step x s) = notifications s"
  using assms
  by (cases x) (auto simp: callRelease_def split: option.splits promise.splits)

text \<open>
  C7, amended. The callbacks of the mutex are never invoked inside \<open>requestMutex\<close> or a
  release: neither call, nor any step other than the firing of a timer, changes the sequence
  of callback invocations, and the promise of a new request is still pending when
  \<open>requestMutex\<close> returns. What the calls do is schedule a timer task: \<open>onAcquired\<close> of the
  requester when the mutex was free, \<open>onSupersessionRequest\<close> for the mutex object when it was
  held with a lower priority, \<open>onAcquired\<close> of the promoted holder on a release; the callback
  is invoked when that timer fires. Event listeners, in contrast, are invoked synchronously:
  \<open>dispatchEvent\<close> calls each of them and returns their results.
\<close>

theorem mutex_callbacks_deferred_listeners_synchronous:
  "notifications (requestMutex code cfg s) = notifications s \<and>
   promises (requestMutex code cfg s) (last_mutex_holder_id s + 1) = Some Pending \<and>
   notifications (releaseMutex code uid s) = notifications s \<and>
   promises (releaseMutex code uid s) = promises s \<and>
   (\<forall>x. (\<forall>tid. x \<noteq> Fire tid) \<longrightarrow> notifications (step x s) = notifications s) \<and>
   ((\<forall>m. mutexAt s code = Some m \<longrightarrow> currentHolder m = None) \<longrightarrow>
      (\<exists>tid. (tid, AcquiredTask (newHolder code cfg s)) \<in> set (timers (requestMutex code cfg s)))) \<and>
   (\<forall>a cur. mutexes s code = Some (Ref a) \<and> currentHolder (heap s a) = Some cur \<and>
        priority cur < priority (newHolder code cfg s) \<longrightarrow>
      (\<exists>tid. (tid, SupersessionTask a) \<in> set (timers (requestMutex code cfg s)))) \<and>
   (\<forall>m cur n. mutexAt s code = Some m \<and> currentHolder m = Some cur \<and> uniqueId cur = uid \<and>
        maxBy (pendingHolders m) priority = Some n \<longrightarrow>
      (last_timer_id s + 1, AcquiredTask n) \<in> set (timers (releaseMutex code uid s))) \<and>
   (\<forall>tid h. map_of (timers s) tid = Some (AcquiredTask h) \<longrightarrow>
      notifications (fire tid s) = notifications s @ [OnAcquired (uniqueId h)]) \<and>
   (\<forall>tid a cur. map_of (timers s) tid = Some (SupersessionTask a) \<and>
        currentHolder (heap s a) = Some cur \<longrightarrow>
      notifications (fire tid s) = notifications s @ [OnSupersessionRequest (uniqueId cur)]) \<and>
   (\<forall>reg event payload n.
      (\<forall>e\<in>set (getEventListeners reg event). \<exists>f. snd e = Callback f) \<and>
      getEventListeners reg event \<noteq> [] \<longrightarrow>
      dispatchEvent (Suc n) reg event payload =
        Some (Some (successfulResults (getEventListeners reg event) payload),
              Dispatched event payload #
                map (\<lambda>e. Invoked event (fst e) payload) (getEventListeners reg event)))"
proof -
  have promote: "(last_timer_id s + 1, AcquiredTask n) \<in> set (timers (releaseMutex code uid s))"
    if "mutexAt s code = Some m" "currentHolder m = Some cur" "uniqueId cur = uid"
       "maxBy (pendingHolders m) priority = Some n" for m cur n
    using releaseMutex_promote(2)[OF that] by simp
  show ?thesis
    using requestMutex_schedules_acquired[of s code cfg]
      requestMutex_schedules_supersession[of s code _ _ cfg]
      promote fire_acquired_notifies[of s] fire_supersession_notifies[of s]
      step_notifications[of _ s] dispatchEvent_callbacks
    by (intro conjI) (simp, simp, simp, simp, blast, blast, blast, blast, blast, blast, blast)
qed

text \<open>
  An instance: a request on a free mutex leaves the \<open>onAcquired\<close> task as timer 1 and no
  callback invoked; the callback is invoked when timer 1 fires. A dispatch to the three
  listeners of \<open>e\<close> returns their results and has called them.
\<close>

theorem mutex_callbacks_deferred_listeners_synchronous_witness:
  "mutexAt init ''X'' = None \<and>
   notifications (requestMutex ''X'' (plain 1) init) = [] \<and>
   promises (requestMutex ''X'' (plain 1) init) 1 = Some Pending \<and>
   map_of (timers (requestMutex ''X'' (plain 1) init)) 1 = Some (AcquiredTask (mkHolder 1 1)) \<and>
   notifications (fire 1 (requestMutex ''X'' (plain 1) init)) = [OnAcquired 1] \<and>
   dispatchEvent 1 three_listeners ''e'' [JNum 7] =
     Some (Some [JNum 1, JBool False],
           [Dispatched ''e'' [JNum 7], Invoked ''e'' ''a'' [JNum 7], Invoked ''e'' ''b'' [JNum 7],
            Invoked ''e'' ''c'' [JNum 7]])"
proof -
  have h0: "mutexAt init ''X'' = None" by code_simp
  have n0: "notifications init = []" "last_mutex_holder_id init + 1 = 1"
    by (simp_all add: init_def)
  have t: "map_of (timers (requestMutex ''X'' (plain 1) init)) 1 = Some (AcquiredTask (mkHolder 1 1))"
    by code_simp
  have u: "uniqueId (mkHolder 1 1) = 1" by (simp add: mkHolder_def)
  have cb: "\<forall>e\<in>set (getEventListeners three_listeners ''e''). \<exists>f. snd e = Callback f"
    "getEventListeners three_listeners ''e'' \<noteq> []"
    by (simp_all add: three_listeners_listeners)
  from mutex_callbacks_deferred_listeners_synchronous[of "''X''" "plain 1" init 0]
  have "notifications (requestMutex ''X'' (plain 1) init) = notifications init"
    "promises (requestMutex ''X'' (plain 1) init) (last_mutex_holder_id init + 1) = Some Pending"
    by blast+
  then have a: "notifications (requestMutex ''X'' (plain 1) init) = []"
    "promises (requestMutex ''X'' (plain 1) init) 1 = Some Pending"
    by (simp_all only: n0)
  from mutex_callbacks_deferred_listeners_synchronous[of "''X''" "plain 1"
         "requestMutex ''X'' (plain 1) init" 0] t
  have "notifications (fire 1 (requestMutex ''X'' (plain 1) init)) =
             notifications (requestMutex ''X'' (plain 1) init) @ [OnAcquired (uniqueId (mkHolder 1 1))]"
    by blast
  then have b: "notifications (fire 1 (requestMutex ''X'' (plain 1) init)) = [OnAcquired 1]"
    by (simp only: a u append_Nil)
  from mutex_callbacks_deferred_listeners_synchronous[of "''X''" "plain 1" init 0] cb
  have c0: "dispatchEvent (Suc 0) three_listeners ''e'' [JNum 7] =
        Some (Some (successfulResults (getEventListeners three_listeners ''e'') [JNum 7]),
              Dispatched ''e'' [JNum 7] #
                map (\<lambda>e. Invoked ''e'' (fst e) [JNum 7]) (getEventListeners three_listeners ''e''))"
    by blast
  have rhs: "successfulResults (getEventListeners three_listeners ''e'') [JNum 7] = [JNum 1, JBool False]"
    "map (\<lambda>e. Invoked ''e'' (fst e) [JNum 7]) (getEventListeners three_listeners ''e'') =
       [Invoked ''e'' ''a'' [JNum 7], Invoked ''e'' ''b'' [JNum 7], Invoked ''e'' ''c'' [JNum 7]]"
    by (simp_all add: three_listeners_listeners)
  from c0 have c: "dispatchEvent 1 three_listeners ''e'' [JNum 7] =
     Some (Some [JNum 1, JBool False],
           [Dispatched ''e'' [JNum 7], Invoked ''e'' ''a'' [JNum 7], Invoked ''e'' ''b'' [JNum 7],
            Invoked ''e'' ''c'' [JNum 7]])"
    unfolding rhs One_nat_def .
  from h0 a t b c show ?thesis by (intro conjI)
qed

end
